theory Spec2Isabelle
  imports Complex_Main
begin

section \<open>Values and errors\<close>

text \<open>The Python values that occur in the keyword dictionaries of the currency table.\<close>

datatype pyval = PyStr string | PyInt int | PyNone

text \<open>
  The exceptions that the currency code of \<^verbatim>\<open>notebooks/helpers/interfaces.py\<close> can raise,
  as values. \<open>KeyError\<close> carries the missing key, \<open>RuntimeError\<close> and \<open>TypeError\<close> their
  message. \<open>InvalidOperation\<close>, \<open>DivisionByZero\<close> and \<open>Overflow\<close> are the three signals
  that Python's default decimal context traps. \<open>ValidationError\<close> is what pydantic raises
  when a field is missing or ill-typed, or when a validator raises \<open>TypeError\<close>,
  \<open>ValueError\<close> or \<open>AssertionError\<close>.
\<close>

datatype error =
    KeyError pyval
  | RuntimeError string
  | TypeError string
  | InvalidOperation
  | DivisionByZero
  | Overflow
  | ValidationError

section \<open>Finite decimals under Python's default context\<close>

text \<open>
  A finite \<^verbatim>\<open>decimal.Decimal\<close> is a sign, a coefficient and an exponent; its value is
  \<open>(-1)^sign * coeff * 10^expo\<close>. Two decimals of the same value and different exponents
  (\<^verbatim>\<open>1.5\<close> and \<^verbatim>\<open>1.50\<close>) are different records, as in Python. NaN and the infinities are
  not members of this type: the default context traps every signal by which an operation
  on finite operands would return one. The program itself does not exclude them: a
  \<^verbatim>\<open>Decimal('NaN')\<close> handed to the constructor is stored as it is (\<^verbatim>\<open>quantize\<close> of a quiet
  NaN returns it), and arithmetic on it returns NaN without raising. Everything below is
  therefore about finite amounts and finite operands, and says nothing of the others.
\<close>

datatype decimal = Decimal (dsign: bool) (coeff: nat) (expo: int)

text \<open>The default context: \<^verbatim>\<open>prec=28, rounding=ROUND_HALF_EVEN, Emin=-999999, Emax=999999\<close>.\<close>

definition prec :: nat where "prec = 28"
definition Emax :: int where "Emax = 999999"
definition Emin :: int where "Emin = - 999999"
definition Etiny :: int where "Etiny = Emin - int prec + 1"
definition Etop :: int where "Etop = Emax - int prec + 1"

text \<open>\<open>ndigits n\<close> is \<^verbatim>\<open>len(str(n))\<close>: the number of decimal digits, 1 for 0.\<close>

fun ndigits :: "nat \<Rightarrow> nat" where
  "ndigits n = (if n < 10 then 1 else Suc (ndigits (n div 10)))"

declare ndigits.simps [simp del]

definition adjusted :: "decimal \<Rightarrow> int" where
  "adjusted d = int (ndigits (coeff d)) + expo d - 1"

definition is_zero :: "decimal \<Rightarrow> bool" where
  "is_zero d \<longleftrightarrow> coeff d = 0"

definition signed_coeff :: "decimal \<Rightarrow> int" where
  "signed_coeff d = (if dsign d then - int (coeff d) else int (coeff d))"

definition dec_value :: "decimal \<Rightarrow> real" where
  "dec_value d = real_of_int (signed_coeff d) * 10 powr real_of_int (expo d)"

text \<open>
  \<open>round_half_even c k\<close> drops the last \<open>k\<close> digits of \<open>c\<close>, rounding to the nearest and
  a tie to the even neighbour (\<^verbatim>\<open>ROUND_HALF_EVEN\<close>).
\<close>

definition round_half_even :: "nat \<Rightarrow> nat \<Rightarrow> nat" where
  "round_half_even c k =
     (let q = c div 10 ^ k; r = c mod 10 ^ k
      in if 10 ^ k < 2 * r \<or> (2 * r = 10 ^ k \<and> odd q) then q + 1 else q)"

text \<open>
  \<^verbatim>\<open>Decimal._rescale(exp, ROUND_HALF_EVEN)\<close>: the same value at exponent \<open>e\<close>, padded with
  zeros or rounded.
\<close>

definition rescale :: "decimal \<Rightarrow> int \<Rightarrow> decimal" where
  "rescale d e =
     (if coeff d = 0 then Decimal (dsign d) 0 e
      else if e \<le> expo d then Decimal (dsign d) (coeff d * 10 ^ nat (expo d - e)) e
      else Decimal (dsign d) (round_half_even (coeff d) (nat (e - expo d))) e)"

text \<open>
  \<^verbatim>\<open>Decimal._fix(context)\<close>: the rounding every arithmetic result goes through. A zero keeps
  its exponent, clamped into \<open>[Etiny, Emax]\<close>. A non-zero value is rounded to at most
  \<open>prec\<close> digits and to an exponent of at least \<open>Etiny\<close>; a value above \<open>Emax\<close> raises
  \<open>Overflow\<close>. Underflow is not trapped: a subnormal result is rounded, silently.
\<close>

definition dec_fix :: "decimal \<Rightarrow> error + decimal" where
  "dec_fix d =
     (if coeff d = 0 then Inr (Decimal (dsign d) 0 (min (max (expo d) Etiny) Emax))
      else
        let exp_min = int (ndigits (coeff d)) + expo d - int prec
        in if Etop < exp_min then Inl Overflow
           else
             let exp_min = max exp_min Etiny
             in if expo d < exp_min then
                  let c = round_half_even (coeff d) (nat (exp_min - expo d))
                  in if prec < ndigits c then
                       (if Etop < exp_min + 1 then Inl Overflow
                        else Inr (Decimal (dsign d) (c div 10) (exp_min + 1)))
                     else Inr (Decimal (dsign d) c exp_min)
                else Inr d)"

text \<open>\<^verbatim>\<open>Decimal(n)\<close> for an int \<open>n\<close>: exact, exponent 0.\<close>

definition from_int :: "int \<Rightarrow> decimal" where
  "from_int n = Decimal (n < 0) (nat \<bar>n\<bar>) 0"

definition copy_negate :: "decimal \<Rightarrow> decimal" where
  "copy_negate d = Decimal (\<not> dsign d) (coeff d) (expo d)"

text \<open>
  Addition: the exact sum at the smaller exponent, then \<open>dec_fix\<close>. A zero sum is negative
  only when both operands are negative.
\<close>

definition dec_add :: "decimal \<Rightarrow> decimal \<Rightarrow> error + decimal" where
  "dec_add a b =
     (let e = min (expo a) (expo b);
          x = signed_coeff a * 10 ^ nat (expo a - e) + signed_coeff b * 10 ^ nat (expo b - e)
      in dec_fix (Decimal (if x = 0 then dsign a \<and> dsign b else x < 0) (nat \<bar>x\<bar>) e))"

definition dec_sub :: "decimal \<Rightarrow> decimal \<Rightarrow> error + decimal" where
  "dec_sub a b = dec_add a (copy_negate b)"

text \<open>Multiplication: the exact product, then \<open>dec_fix\<close>.\<close>

definition dec_mul :: "decimal \<Rightarrow> decimal \<Rightarrow> error + decimal" where
  "dec_mul a b = dec_fix (Decimal (dsign a \<noteq> dsign b) (coeff a * coeff b) (expo a + expo b))"

text \<open>
  The loop of \<^verbatim>\<open>Decimal.__truediv__\<close> that brings an exact quotient towards the ideal
  exponent: \<^verbatim>\<open>while exp < ideal_exp and coeff % 10 == 0: coeff //= 10; exp += 1\<close>.
\<close>

function reduce_exact :: "nat \<Rightarrow> int \<Rightarrow> int \<Rightarrow> nat \<times> int" where
  "reduce_exact c e ideal =
     (if e < ideal \<and> c mod 10 = 0 then reduce_exact (c div 10) (e + 1) ideal else (c, e))"
  by pat_completeness auto
termination
  by (relation "measure (\<lambda>(c, e, ideal). nat (ideal - e))") auto

declare reduce_exact.simps [simp del]

text \<open>
  \<^verbatim>\<open>Decimal.__truediv__\<close>. \<open>x / 0\<close> raises \<open>DivisionByZero\<close>, but \<open>0 / 0\<close> is the condition
  \<^verbatim>\<open>DivisionUndefined\<close>, which the context raises as \<open>InvalidOperation\<close>. Otherwise the
  quotient is computed to \<open>prec + 1\<close> digits or more, with a sticky last digit when it
  is inexact, and \<open>dec_fix\<close> rounds it.
\<close>

definition dec_truediv :: "decimal \<Rightarrow> decimal \<Rightarrow> error + decimal" where
  "dec_truediv a b =
     (let sign = (dsign a \<noteq> dsign b)
      in if coeff b = 0 then (if coeff a = 0 then Inl InvalidOperation else Inl DivisionByZero)
         else if coeff a = 0 then dec_fix (Decimal sign 0 (expo a - expo b))
         else
           let shift = int (ndigits (coeff b)) - int (ndigits (coeff a)) + int prec + 1;
               e = expo a - expo b - shift;
               n = (if 0 \<le> shift then coeff a * 10 ^ nat shift else coeff a);
               m = (if 0 \<le> shift then coeff b else coeff b * 10 ^ nat (- shift));
               q = n div m;
               r = n mod m
           in if r \<noteq> 0 then dec_fix (Decimal sign (if q mod 5 = 0 then q + 1 else q) e)
              else (case reduce_exact q e (expo a - expo b) of
                      (q', e') \<Rightarrow> dec_fix (Decimal sign q' e')))"

text \<open>
  \<^verbatim>\<open>Decimal.__floordiv__\<close>, through \<^verbatim>\<open>Decimal._divide\<close>: the integer part of the quotient,
  at exponent 0 and not rounded; a quotient of more than \<open>prec\<close> digits is the condition
  \<^verbatim>\<open>DivisionImpossible\<close>, raised as \<open>InvalidOperation\<close>.
\<close>

definition dec_floordiv :: "decimal \<Rightarrow> decimal \<Rightarrow> error + decimal" where
  "dec_floordiv a b =
     (let sign = (dsign a \<noteq> dsign b)
      in if coeff b = 0 then (if coeff a \<noteq> 0 then Inl DivisionByZero else Inl InvalidOperation)
         else
           let expdiff = adjusted a - adjusted b
           in if coeff a = 0 \<or> expdiff \<le> - 2 then Inr (Decimal sign 0 0)
              else if expdiff \<le> int prec then
                let n = (if expo b \<le> expo a then coeff a * 10 ^ nat (expo a - expo b) else coeff a);
                    m = (if expo b \<le> expo a then coeff b else coeff b * 10 ^ nat (expo b - expo a));
                    q = n div m
                in if q < 10 ^ prec then Inr (Decimal sign q 0) else Inl InvalidOperation
              else Inl InvalidOperation)"

text \<open>
  \<^verbatim>\<open>Decimal.quantize(exp)\<close>: the value at the exponent of \<open>q\<close>, rounded half-even. It raises
  \<open>InvalidOperation\<close> when the result would need more than \<open>prec\<close> digits.
\<close>

definition quantize :: "decimal \<Rightarrow> decimal \<Rightarrow> error + decimal" where
  "quantize a q =
     (if \<not> (Etiny \<le> expo q \<and> expo q \<le> Emax) then Inl InvalidOperation
      else if coeff a = 0 then dec_fix (Decimal (dsign a) 0 (expo q))
      else if Emax < adjusted a then Inl InvalidOperation
      else if int prec < adjusted a - expo q + 1 then Inl InvalidOperation
      else
        let ans = rescale a (expo q)
        in if Emax < adjusted ans then Inl InvalidOperation
           else if prec < ndigits (coeff ans) then Inl InvalidOperation
           else dec_fix ans)"

text \<open>
  Python's \<^verbatim>\<open>==\<close> between two finite decimals, or a decimal and an int, compares values:
  \<^verbatim>\<open>Decimal('1.50') == Decimal('1.5')\<close>.
\<close>

definition dec_eq :: "decimal \<Rightarrow> decimal \<Rightarrow> bool" where
  "dec_eq a b =
     (let e = min (expo a) (expo b)
      in signed_coeff a * 10 ^ nat (expo a - e) = signed_coeff b * 10 ^ nat (expo b - e))"

section \<open>Strings and keyword dictionaries\<close>

text \<open>
  A Python \<^verbatim>\<open>str\<close> is modelled by its UTF-8 bytes. \<open>upper\<close> and \<open>lower\<close> are
  \<^verbatim>\<open>str.upper()\<close> and \<^verbatim>\<open>str.lower()\<close> on ASCII strings: they map the ASCII letters and
  leave every other byte as it is. Python also maps letters outside ASCII (the upper case
  of U+017F is \<^verbatim>\<open>S\<close>), so the two agree with Python on ASCII strings only, and \<open>is_ascii\<close>
  is the hypothesis of every statement that applies them to a string that is not given.
\<close>

definition is_ascii :: "string \<Rightarrow> bool" where
  "is_ascii s \<longleftrightarrow> list_all (\<lambda>c. \<not> digit7 c) s"

definition upper_char :: "char \<Rightarrow> char" where
  "upper_char c =
     (case map_of (zip ''abcdefghijklmnopqrstuvwxyz'' ''ABCDEFGHIJKLMNOPQRSTUVWXYZ'') c of
        Some u \<Rightarrow> u
      | None \<Rightarrow> c)"

definition lower_char :: "char \<Rightarrow> char" where
  "lower_char c =
     (case map_of (zip ''ABCDEFGHIJKLMNOPQRSTUVWXYZ'' ''abcdefghijklmnopqrstuvwxyz'') c of
        Some l \<Rightarrow> l
      | None \<Rightarrow> c)"

definition upper :: "string \<Rightarrow> string" where
  "upper s = map upper_char s"

definition lower :: "string \<Rightarrow> string" where
  "lower s = map lower_char s"

text \<open>
  A keyword dictionary is the list of its items in insertion order (a Python dict has
  no duplicate keys).
\<close>

type_synonym pydict = "(string \<times> pyval) list"

section \<open>The currency and fraction tables\<close>

definition ethereum_like :: "string \<Rightarrow> string \<Rightarrow> pydict" where
  "ethereum_like code name =
     [(''code'', PyStr code), (''precision'', PyInt 18), (''name'', PyStr name),
      (''type'', PyStr ''CRYPTO'')]"

text \<open>The symbols of EUR and BTC are U+20AC and U+20BF, here in UTF-8.\<close>

definition CURRENCIES :: "(string \<times> pydict) list" where
  "CURRENCIES =
     [(''USD'', [(''code'', PyStr ''USD''), (''precision'', PyInt 8),
                 (''name'', PyStr ''US Dollar''), (''type'', PyStr ''FIAT''),
                 (''symbol'', PyStr ''$'')]),
      (''EUR'', [(''code'', PyStr ''EUR''), (''precision'', PyInt 8),
                 (''name'', PyStr ''Euro''), (''type'', PyStr ''FIAT''),
                 (''symbol'', PyStr [CHR 0xE2, CHR 0x82, CHR 0xAC])]),
      (''BTC'', [(''code'', PyStr ''BTC''), (''precision'', PyInt 8),
                 (''name'', PyStr ''Bitcoin''), (''type'', PyStr ''CRYPTO''),
                 (''symbol'', PyStr [CHR 0xE2, CHR 0x82, CHR 0xBF])]),
      (''ETH'', ethereum_like ''ETH'' ''Ether''),
      (''ELLA'', ethereum_like ''ELLA'' ''Ellaism Token''),
      (''EWT'', ethereum_like ''EWT'' ''Energy Web Token''),
      (''POA'', ethereum_like ''POA'' ''POA Network Token''),
      (''DAI'', ethereum_like ''DAI'' ''Dai Token''),
      (''TLN'', ethereum_like ''TLN'' ''Trustlines Network Token''),
      (''PAN'', ethereum_like ''PAN'' ''Panvala Token''),
      (''LINK'', ethereum_like ''LINK'' ''Link Token'')]"

definition FRACTIONS :: "(string \<times> decimal) list" where
  "FRACTIONS =
     [(''base'', Decimal False 1 0),
      (''wei'', Decimal False 1 (- 18)),
      (''gwei'', Decimal False 1 (- 9)),
      (''satoshi'', Decimal False 1 (- 8))]"

section \<open>Currency\<close>

datatype CurrencyType = CRYPTO | FIAT

record Currency =
  code :: string
  precision :: int
  name :: string
  type :: CurrencyType
  symbol :: "string option"

text \<open>
  How pydantic reads the fields of a \<open>Currency\<close> from the keyword dictionary. A missing
  or ill-typed field is a \<open>ValidationError\<close>; \<open>symbol\<close> is optional and defaults to
  \<^verbatim>\<open>None\<close>. (Pydantic's coercions between field types are not modelled: the dictionaries
  of the table are well typed.)
\<close>

definition str_field :: "pydict \<Rightarrow> string \<Rightarrow> error + string" where
  "str_field d k = (case map_of d k of Some (PyStr s) \<Rightarrow> Inr s | _ \<Rightarrow> Inl ValidationError)"

definition int_field :: "pydict \<Rightarrow> string \<Rightarrow> error + int" where
  "int_field d k = (case map_of d k of Some (PyInt n) \<Rightarrow> Inr n | _ \<Rightarrow> Inl ValidationError)"

definition type_field :: "pydict \<Rightarrow> string \<Rightarrow> error + CurrencyType" where
  "type_field d k =
     (case map_of d k of
        Some (PyStr s) \<Rightarrow>
          if s = ''CRYPTO'' then Inr CRYPTO
          else if s = ''FIAT'' then Inr FIAT
          else Inl ValidationError
      | _ \<Rightarrow> Inl ValidationError)"

definition optional_str_field :: "pydict \<Rightarrow> string \<Rightarrow> error + string option" where
  "optional_str_field d k =
     (case map_of d k of
        None \<Rightarrow> Inr None
      | Some PyNone \<Rightarrow> Inr None
      | Some (PyStr s) \<Rightarrow> Inr (Some s)
      | Some (PyInt _) \<Rightarrow> Inl ValidationError)"

text \<open>Sequencing of computations that may raise.\<close>

definition and_then :: "error + 'a \<Rightarrow> ('a \<Rightarrow> error + 'b) \<Rightarrow> error + 'b" where
  "and_then r f = (case r of Inl e \<Rightarrow> Inl e | Inr x \<Rightarrow> f x)"

text \<open>
  \<^verbatim>\<open>Currency.restore_from_code\<close>, the root validator that runs before the fields are read:
  a dictionary whose only key is \<^verbatim>\<open>code\<close> is replaced by the entry of the table under
  that code, looked up as it is written; a code that is no key raises \<open>KeyError\<close>, which
  pydantic lets through.
\<close>

definition CURRENCIES_getitem :: "pyval \<Rightarrow> error + pydict" where
  "CURRENCIES_getitem k =
     (case k of
        PyStr c \<Rightarrow> (case map_of CURRENCIES c of Some d \<Rightarrow> Inr d | None \<Rightarrow> Inl (KeyError k))
      | _ \<Rightarrow> Inl (KeyError k))"

definition restore_from_code :: "pydict \<Rightarrow> error + pydict" where
  "restore_from_code values =
     (let only_code = (map fst values = [''code''])
      in if only_code then
           (case map_of values ''code'' of
              Some k \<Rightarrow> CURRENCIES_getitem k
            | None \<Rightarrow> Inl (KeyError (PyStr ''code'')))
         else Inr values)"

text \<open>\<^verbatim>\<open>Currency(**values)\<close>: the root validator, then the fields.\<close>

definition Currency_init :: "pydict \<Rightarrow> error + Currency" where
  "Currency_init values =
     and_then (restore_from_code values) (\<lambda>d.
     and_then (str_field d ''code'') (\<lambda>c.
     and_then (int_field d ''precision'') (\<lambda>p.
     and_then (str_field d ''name'') (\<lambda>n.
     and_then (type_field d ''type'') (\<lambda>t.
     and_then (optional_str_field d ''symbol'') (\<lambda>s.
       Inr \<lparr>code = c, precision = p, name = n, type = t, symbol = s\<rparr>))))))"

text \<open>\<^verbatim>\<open>Currency.from_code\<close>: \<^verbatim>\<open>Currency(**CURRENCIES[code.upper()])\<close>.\<close>

definition from_code :: "string \<Rightarrow> error + Currency" where
  "from_code c = and_then (CURRENCIES_getitem (PyStr (upper c))) Currency_init"

text \<open>\<^verbatim>\<open>Currency.dict\<close>: only the code is serialized.\<close>

definition dict :: "Currency \<Rightarrow> pydict" where
  "dict c = [(''code'', PyStr (code c))]"

text \<open>
  \<^verbatim>\<open>==\<close> on two currencies. \<open>Currency\<close> defines no \<^verbatim>\<open>__eq__\<close>; the one it inherits from
  pydantic's \<^verbatim>\<open>BaseModel\<close> compares \<^verbatim>\<open>self.dict()\<close> with \<^verbatim>\<open>other.dict()\<close>, and
  \<open>Currency\<close> overrides \<^verbatim>\<open>dict\<close>.
\<close>

definition currency_eq :: "Currency \<Rightarrow> Currency \<Rightarrow> bool" where
  "currency_eq a b \<longleftrightarrow> dict a = dict b"

text \<open>
  \<^verbatim>\<open>Currency.minimal_value\<close>: \<^verbatim>\<open>Decimal("1") / (10 ** self.precision)\<close>. For a negative
  precision the power is a float, and dividing a Decimal by a float is a \<open>TypeError\<close>.
\<close>

definition minimal_value :: "Currency \<Rightarrow> error + decimal" where
  "minimal_value c =
     (if precision c < 0
      then Inl (TypeError ''unsupported operand type(s) for /: Decimal and float'')
      else dec_truediv (Decimal False 1 0) (from_int (10 ^ nat (precision c))))"

section \<open>CurrencyAmount\<close>

record CurrencyAmount =
  currency :: Currency
  amount :: decimal

text \<open>
  A scalar operand: the operators accept an \<^verbatim>\<open>int\<close> or a \<^verbatim>\<open>Decimal\<close>, and \<^verbatim>\<open>Decimal(other)\<close>
  converts exactly.
\<close>

datatype scalar = SInt int | SDec decimal

fun to_decimal :: "scalar \<Rightarrow> decimal" where
  "to_decimal (SInt n) = from_int n"
| "to_decimal (SDec d) = d"

text \<open>
  \<^verbatim>\<open>CurrencyAmount.quantize_amount\<close>, the validator of the field \<open>amount\<close>:
  \<^verbatim>\<open>value.quantize(currency.minimal_value)\<close>.
\<close>

definition quantize_amount :: "decimal \<Rightarrow> Currency \<Rightarrow> error + decimal" where
  "quantize_amount v c = and_then (minimal_value c) (\<lambda>q. quantize v q)"

text \<open>
  Pydantic turns a \<open>TypeError\<close> raised inside a validator into a \<open>ValidationError\<close>; a
  decimal signal is an \<^verbatim>\<open>ArithmeticError\<close> and passes through.
\<close>

definition in_validator :: "error + 'a \<Rightarrow> error + 'a" where
  "in_validator r = (case r of Inl (TypeError _) \<Rightarrow> Inl ValidationError | _ \<Rightarrow> r)"

text \<open>\<^verbatim>\<open>CurrencyAmount(amount=v, currency=c)\<close>.\<close>

definition CurrencyAmount_init :: "decimal \<Rightarrow> Currency \<Rightarrow> error + CurrencyAmount" where
  "CurrencyAmount_init v c =
     and_then (in_validator (quantize_amount v c)) (\<lambda>a. Inr \<lparr>currency = c, amount = a\<rparr>)"

subsection \<open>Operations of Currency that build amounts\<close>

definition get_amount :: "Currency \<Rightarrow> scalar \<Rightarrow> error + CurrencyAmount" where
  "get_amount c a = CurrencyAmount_init (to_decimal a) c"

text \<open>\<^verbatim>\<open>Currency.__mul__\<close> and \<^verbatim>\<open>Currency.__rmul__\<close>, for an int or Decimal operand.\<close>

definition currency_mul :: "Currency \<Rightarrow> scalar \<Rightarrow> error + CurrencyAmount" where
  "currency_mul c other = CurrencyAmount_init (to_decimal other) c"

definition currency_rmul :: "Currency \<Rightarrow> scalar \<Rightarrow> error + CurrencyAmount" where
  "currency_rmul c other = CurrencyAmount_init (to_decimal other) c"

definition zero :: "Currency \<Rightarrow> error + CurrencyAmount" where
  "zero c = currency_rmul c (SInt 0)"

definition one :: "Currency \<Rightarrow> error + CurrencyAmount" where
  "one c = currency_rmul c (SInt 1)"

section \<open>CurrencyFraction\<close>

record CurrencyFraction =
  fcurrency :: Currency
  fname :: string
  multiplier :: decimal

definition get_fraction :: "Currency \<Rightarrow> string \<Rightarrow> error + CurrencyFraction" where
  "get_fraction c fraction_name =
     (case map_of FRACTIONS fraction_name of
        None \<Rightarrow> Inl (RuntimeError (fraction_name @ '' is not known''))
      | Some m \<Rightarrow> Inr \<lparr>fcurrency = c, fname = fraction_name, multiplier = m\<rparr>)"

text \<open>
  \<^verbatim>\<open>CurrencyFraction.get_amount\<close>:
  \<^verbatim>\<open>self.currency.get_amount(Decimal(amount) * self.multiplier)\<close>.
\<close>

definition fraction_get_amount :: "CurrencyFraction \<Rightarrow> scalar \<Rightarrow> error + CurrencyAmount" where
  "fraction_get_amount f a =
     and_then (dec_mul (to_decimal a) (multiplier f)) (\<lambda>x. get_amount (fcurrency f) (SDec x))"

section \<open>Arithmetic of CurrencyAmount\<close>

definition different_currencies :: "Currency \<Rightarrow> Currency \<Rightarrow> error" where
  "different_currencies c d =
     TypeError (''Amounts have different currencies: '' @ code c @ '' and '' @ code d)"

definition add :: "CurrencyAmount \<Rightarrow> CurrencyAmount \<Rightarrow> error + CurrencyAmount" where
  "add a b =
     (if currency_eq (currency a) (currency b)
      then and_then (dec_add (amount a) (amount b)) (\<lambda>x. CurrencyAmount_init x (currency a))
      else Inl (different_currencies (currency a) (currency b)))"

definition sub :: "CurrencyAmount \<Rightarrow> CurrencyAmount \<Rightarrow> error + CurrencyAmount" where
  "sub a b =
     (if currency_eq (currency a) (currency b)
      then and_then (dec_sub (amount a) (amount b)) (\<lambda>x. CurrencyAmount_init x (currency a))
      else Inl (different_currencies (currency a) (currency b)))"

definition mul :: "CurrencyAmount \<Rightarrow> scalar \<Rightarrow> error + CurrencyAmount" where
  "mul a other =
     and_then (dec_mul (to_decimal other) (amount a)) (\<lambda>x. CurrencyAmount_init x (currency a))"

definition truediv :: "CurrencyAmount \<Rightarrow> scalar \<Rightarrow> error + CurrencyAmount" where
  "truediv a other =
     and_then (dec_truediv (amount a) (to_decimal other))
       (\<lambda>x. CurrencyAmount_init x (currency a))"

definition floordiv :: "CurrencyAmount \<Rightarrow> scalar \<Rightarrow> error + CurrencyAmount" where
  "floordiv a other =
     and_then (dec_floordiv (amount a) (to_decimal other))
       (\<lambda>x. CurrencyAmount_init x (currency a))"

text \<open>
  \<^verbatim>\<open>CurrencyAmount.from_fraction\<close>: the product is quantized once in the body and once
  more by the validator. Here \<^verbatim>\<open>minimal_value\<close> is read outside a validator, so its
  \<open>TypeError\<close> is not wrapped.
\<close>

definition from_fraction :: "scalar \<Rightarrow> Currency \<Rightarrow> string \<Rightarrow> error + CurrencyAmount" where
  "from_fraction a c fraction_name =
     and_then (get_fraction c fraction_name) (\<lambda>fraction.
     and_then (dec_mul (to_decimal a) (multiplier fraction)) (\<lambda>x.
     and_then (minimal_value c) (\<lambda>q.
     and_then (quantize x q) (\<lambda>amount_base.
       CurrencyAmount_init amount_base c))))"

text \<open>\<^verbatim>\<open>CurrencyAmount.as_fraction\<close>: \<^verbatim>\<open>self.amount / fraction.multiplier\<close>, not quantized.\<close>

definition as_fraction :: "CurrencyAmount \<Rightarrow> string \<Rightarrow> error + decimal" where
  "as_fraction a fraction_name =
     and_then (get_fraction (currency a) fraction_name) (\<lambda>fraction.
       dec_truediv (amount a) (multiplier fraction))"

section \<open>The ways to build a CurrencyAmount\<close>

text \<open>
  Every function of the source that returns a \<open>CurrencyAmount\<close>, with its arguments;
  \<open>Init\<close> is the constructor called directly. \<open>construct\<close> runs the function, and
  \<open>unquantized\<close> is the decimal that the function hands to the constructor.
\<close>

datatype construction =
    Init decimal Currency
  | GetAmount Currency scalar
  | CurrencyMul Currency scalar
  | CurrencyRMul Currency scalar
  | Zero Currency
  | One Currency
  | FractionGetAmount CurrencyFraction scalar
  | FromFraction scalar Currency string
  | Add CurrencyAmount CurrencyAmount
  | Sub CurrencyAmount CurrencyAmount
  | Mul CurrencyAmount scalar
  | TrueDiv CurrencyAmount scalar
  | FloorDiv CurrencyAmount scalar

fun construct :: "construction \<Rightarrow> error + CurrencyAmount" where
  "construct (Init v c) = CurrencyAmount_init v c"
| "construct (GetAmount c x) = get_amount c x"
| "construct (CurrencyMul c x) = currency_mul c x"
| "construct (CurrencyRMul c x) = currency_rmul c x"
| "construct (Zero c) = zero c"
| "construct (One c) = one c"
| "construct (FractionGetAmount f x) = fraction_get_amount f x"
| "construct (FromFraction x c n) = from_fraction x c n"
| "construct (Add a b) = add a b"
| "construct (Sub a b) = sub a b"
| "construct (Mul a x) = mul a x"
| "construct (TrueDiv a x) = truediv a x"
| "construct (FloorDiv a x) = floordiv a x"

fun unquantized :: "construction \<Rightarrow> error + decimal" where
  "unquantized (Init v c) = Inr v"
| "unquantized (GetAmount c x) = Inr (to_decimal x)"
| "unquantized (CurrencyMul c x) = Inr (to_decimal x)"
| "unquantized (CurrencyRMul c x) = Inr (to_decimal x)"
| "unquantized (Zero c) = Inr (from_int 0)"
| "unquantized (One c) = Inr (from_int 1)"
| "unquantized (FractionGetAmount f x) = dec_mul (to_decimal x) (multiplier f)"
| "unquantized (FromFraction x c n) =
     and_then (get_fraction c n) (\<lambda>fraction.
     and_then (dec_mul (to_decimal x) (multiplier fraction)) (\<lambda>v.
     and_then (minimal_value c) (\<lambda>q. quantize v q)))"
| "unquantized (Add a b) = dec_add (amount a) (amount b)"
| "unquantized (Sub a b) = dec_sub (amount a) (amount b)"
| "unquantized (Mul a x) = dec_mul (to_decimal x) (amount a)"
| "unquantized (TrueDiv a x) = dec_truediv (amount a) (to_decimal x)"
| "unquantized (FloorDiv a x) = dec_floordiv (amount a) (to_decimal x)"

section \<open>Values that fit a currency\<close>

text \<open>
  \<open>fits v e\<close>: the value \<open>v\<close>, rounded half-even to a multiple of \<open>10^e\<close>, has at most
  \<open>prec\<close> digits; in other words its magnitude is below \<open>10^(prec + e) - 10^e / 2\<close>.
  The first case is a value with no digit below \<open>10^e\<close>, the second a value that is rounded.
\<close>

definition fits :: "decimal \<Rightarrow> int \<Rightarrow> bool" where
  "fits v e \<longleftrightarrow>
     (if e \<le> expo v then coeff v * 10 ^ nat (expo v - e) < 10 ^ prec
      else 2 * coeff v + 10 ^ nat (e - expo v) < 2 * 10 ^ prec * 10 ^ nat (e - expo v))"

text \<open>
  A record is a valid \<open>CurrencyAmount\<close> when the constructor returns it unchanged: its
  amount is already quantized for its currency. These are the amounts that the constructor
  can return.
\<close>

definition valid_amount :: "CurrencyAmount \<Rightarrow> bool" where
  "valid_amount a \<longleftrightarrow> CurrencyAmount_init (amount a) (currency a) = Inr a"

section \<open>The currencies of the table\<close>

text \<open>
  A currency is registered when \<^verbatim>\<open>Currency.from_code\<close> returns it for a key of the table.
  \<open>registry\<close> lists the eleven currencies that the entries of the table describe;
  \<open>registered_iff\<close> below shows that these are exactly the registered ones.
\<close>

definition registered :: "Currency \<Rightarrow> bool" where
  "registered c \<longleftrightarrow> list_ex (\<lambda>k. from_code k = Inr c) (map fst CURRENCIES)"

definition USD :: Currency where
  "USD = \<lparr>code = ''USD'', precision = 8, name = ''US Dollar'', type = FIAT, symbol = Some ''$''\<rparr>"

definition EUR :: Currency where
  "EUR = \<lparr>code = ''EUR'', precision = 8, name = ''Euro'', type = FIAT,
           symbol = Some [CHR 0xE2, CHR 0x82, CHR 0xAC]\<rparr>"

definition BTC :: Currency where
  "BTC = \<lparr>code = ''BTC'', precision = 8, name = ''Bitcoin'', type = CRYPTO,
           symbol = Some [CHR 0xE2, CHR 0x82, CHR 0xBF]\<rparr>"

definition ethereum_like_currency :: "string \<Rightarrow> string \<Rightarrow> Currency" where
  "ethereum_like_currency c n = \<lparr>code = c, precision = 18, name = n, type = CRYPTO, symbol = None\<rparr>"

definition ETH :: Currency where
  "ETH = ethereum_like_currency ''ETH'' ''Ether''"

definition registry :: "Currency list" where
  "registry =
     [USD, EUR, BTC, ETH,
      ethereum_like_currency ''ELLA'' ''Ellaism Token'',
      ethereum_like_currency ''EWT'' ''Energy Web Token'',
      ethereum_like_currency ''POA'' ''POA Network Token'',
      ethereum_like_currency ''DAI'' ''Dai Token'',
      ethereum_like_currency ''TLN'' ''Trustlines Network Token'',
      ethereum_like_currency ''PAN'' ''Panvala Token'',
      ethereum_like_currency ''LINK'' ''Link Token'']"

section \<open>Properties of the tables\<close>

lemmas currency_defs = CURRENCIES_getitem_def CURRENCIES_def and_then_def
    Currency_init_def restore_from_code_def ethereum_like_def str_field_def int_field_def
    type_field_def optional_str_field_def

lemmas registry_defs = registry_def USD_def EUR_def BTC_def ETH_def ethereum_like_currency_def

lemma CURRENCIES_keys:
  "map fst CURRENCIES =
     [''USD'', ''EUR'', ''BTC'', ''ETH'', ''ELLA'', ''EWT'', ''POA'', ''DAI'', ''TLN'', ''PAN'', ''LINK'']"
  by (simp add: CURRENCIES_def)

lemma upper_keys: "map upper (map fst CURRENCIES) = map fst CURRENCIES"
  unfolding CURRENCIES_keys by (simp add: upper_def upper_char_def)

lemma entry_table:
  "map (\<lambda>k. and_then (CURRENCIES_getitem (PyStr k)) Currency_init) (map fst CURRENCIES) = map Inr registry"
  unfolding CURRENCIES_keys by (simp add: currency_defs registry_defs)

lemma from_code_table: "map from_code (map fst CURRENCIES) = map Inr registry"
proof -
  have "map from_code (map fst CURRENCIES) =
        map (\<lambda>k. and_then (CURRENCIES_getitem (PyStr k)) Currency_init) (map upper (map fst CURRENCIES))"
    by (simp add: from_code_def comp_def)
  then show ?thesis by (simp only: upper_keys entry_table)
qed

lemma registry_codes: "map code registry = map fst CURRENCIES"
  unfolding CURRENCIES_keys by (simp add: registry_defs)

lemma list_ex_eq_conv: "list_ex (\<lambda>k. f k = y) xs \<longleftrightarrow> y \<in> set (map f xs)"
  by (auto simp: list_ex_iff)

lemma registered_iff: "registered c \<longleftrightarrow> c \<in> set registry"
  unfolding registered_def list_ex_eq_conv from_code_table by auto

lemma registry_roundtrip: "\<forall>c \<in> set registry. Currency_init (dict c) = Inr c"
  by (simp add: dict_def currency_defs registry_defs)

lemma registry_precision: "\<forall>c \<in> set registry. precision c = 8 \<or> precision c = 18"
  by (simp add: registry_defs)

lemma registry_distinct_codes: "distinct (map code registry)"
  by (simp add: registry_defs)

lemma currency_eq_code: "currency_eq a b \<longleftrightarrow> code a = code b"
  by (simp add: currency_eq_def dict_def)

lemma registry_eq: "a \<in> set registry \<Longrightarrow> b \<in> set registry \<Longrightarrow> currency_eq a b \<longleftrightarrow> a = b"
  using registry_distinct_codes by (auto simp: currency_eq_code distinct_map inj_on_def)
lemma registry_entry:
  "k \<in> set (map fst CURRENCIES) \<Longrightarrow>
     \<exists>cur. and_then (CURRENCIES_getitem (PyStr k)) Currency_init = Inr cur \<and> code cur = k \<and> registered cur"
proof -
  assume k: "k \<in> set (map fst CURRENCIES)"
  then obtain i where i: "i < length (map fst CURRENCIES)" "map fst CURRENCIES ! i = k"
    by (meson in_set_conv_nth)
  let ?f = "\<lambda>k. and_then (CURRENCIES_getitem (PyStr k)) Currency_init"
  have len: "length registry = length (map fst CURRENCIES)"
    using arg_cong [OF registry_codes, of length] by simp
  have "map ?f (map fst CURRENCIES) ! i = map Inr registry ! i" by (simp only: entry_table)
  with i len have 1: "?f k = Inr (registry ! i)" by simp
  have "map code registry ! i = map fst CURRENCIES ! i" by (simp only: registry_codes)
  with i len have 2: "code (registry ! i) = k" by simp
  have 3: "registered (registry ! i)" using i len by (simp add: registered_iff)
  from 1 2 3 show ?thesis by blast
qed

lemma get_unknown: "k \<notin> set (map fst CURRENCIES) \<Longrightarrow> CURRENCIES_getitem (PyStr k) = Inl (KeyError (PyStr k))"
  by (simp add: CURRENCIES_getitem_def map_of_eq_None_iff [THEN iffD2] split: option.splits)

section \<open>Properties of the decimal operations\<close>

lemma ndigits_less10: "n < 10 \<Longrightarrow> ndigits n = 1"
  by (subst ndigits.simps) simp

lemma ndigits_ge10: "10 \<le> n \<Longrightarrow> ndigits n = Suc (ndigits (n div 10))"
  by (subst ndigits.simps) simp

lemma ndigits_pos: "0 < ndigits n"
  by (subst ndigits.simps) simp

lemma ndigits_upper: "n < 10 ^ ndigits n"
proof (induction n rule: ndigits.induct)
  case (1 n)
  show ?case
  proof (cases "n < 10")
    case True
    then show ?thesis by (simp add: ndigits_less10)
  next
    case False
    with 1 have "n div 10 < 10 ^ ndigits (n div 10)" by simp
    then have "n < 10 * 10 ^ ndigits (n div 10)" by simp
    with False show ?thesis by (simp add: ndigits_ge10)
  qed
qed

lemma ndigits_lower: "0 < n \<Longrightarrow> 10 ^ (ndigits n - 1) \<le> n"
proof (induction n rule: ndigits.induct)
  case (1 n)
  show ?case
  proof (cases "n < 10")
    case True
    with 1 show ?thesis by (simp add: ndigits_less10)
  next
    case False
    then have "0 < n div 10" by simp
    with 1 False have IH: "10 ^ (ndigits (n div 10) - 1) \<le> n div 10" by simp
    obtain d where d: "ndigits (n div 10) = Suc d"
      using ndigits_pos [of "n div 10"] by (cases "ndigits (n div 10)") auto
    from IH d have "10 * 10 ^ d \<le> n" by simp
    with False d show ?thesis by (simp add: ndigits_ge10)
  qed
qed

lemma ndigits_le_iff: "0 < k \<Longrightarrow> ndigits n \<le> k \<longleftrightarrow> n < 10 ^ k"
proof
  assume "ndigits n \<le> k"
  then have "(10::nat) ^ ndigits n \<le> 10 ^ k" by (simp add: power_increasing)
  with ndigits_upper [of n] show "n < 10 ^ k" by (rule less_le_trans)
next
  assume k: "0 < k" and n: "n < 10 ^ k"
  show "ndigits n \<le> k"
  proof (rule ccontr)
    assume "\<not> ndigits n \<le> k"
    then have gt: "k \<le> ndigits n - 1" by simp
    with k have "1 < ndigits n" by simp
    then have "0 < n" by (cases "n = 0") (simp_all add: ndigits_less10)
    from ndigits_lower [OF this] have "10 ^ (ndigits n - 1) \<le> n" .
    moreover from gt have "(10::nat) ^ k \<le> 10 ^ (ndigits n - 1)" by (simp add: power_increasing)
    ultimately have "10 ^ k \<le> n" by (rule order_trans [rotated])
    with n show False by simp
  qed
qed

lemma ndigits_eqI: "10 ^ k \<le> n \<Longrightarrow> n < 10 ^ Suc k \<Longrightarrow> ndigits n = Suc k"
proof -
  assume lo: "10 ^ k \<le> n" and hi: "n < 10 ^ Suc k"
  from hi have "ndigits n \<le> Suc k" by (simp add: ndigits_le_iff)
  moreover have "\<not> ndigits n \<le> k"
  proof (cases "k = 0")
    case True
    then show ?thesis using ndigits_pos [of n] by simp
  next
    case False
    then show ?thesis using lo by (simp add: ndigits_le_iff)
  qed
  ultimately show ?thesis by simp
qed

lemma ndigits_power10: "ndigits (10 ^ p) = Suc p"
  by (rule ndigits_eqI) simp_all

lemma ndigits_mult_power10: "0 < c \<Longrightarrow> ndigits (c * 10 ^ k) = ndigits c + k"
proof -
  assume c: "0 < c"
  obtain d where d: "ndigits c = Suc d" using ndigits_pos [of c] by (cases "ndigits c") auto
  from ndigits_lower [OF c] d have lo: "10 ^ d \<le> c" by simp
  from ndigits_upper [of c] d have hi: "c < 10 ^ Suc d" by simp
  from lo have "10 ^ d * 10 ^ k \<le> c * 10 ^ k" by simp
  then have 1: "10 ^ (d + k) \<le> c * 10 ^ k" by (simp add: power_add)
  from hi have "c * 10 ^ k < 10 ^ Suc d * 10 ^ k" by simp
  then have 2: "c * 10 ^ k < 10 ^ Suc (d + k)" by (simp add: power_add)
  from ndigits_eqI [OF 1 2] d show ?thesis by simp
qed

lemma ndigits_numeral [simp]:
  "ndigits (numeral k) = (if (numeral k :: nat) < 10 then 1 else Suc (ndigits (numeral k div 10)))"
  by (rule ndigits.simps)

lemma ndigits_0 [simp]: "ndigits 0 = 1"
  by (simp add: ndigits_less10)

lemma ndigits_1 [simp]: "ndigits 1 = 1"
  by (simp add: ndigits_less10)

lemma ndigits_Suc_0 [simp]: "ndigits (Suc 0) = 1"
  by (simp add: ndigits_less10)

lemma reduce_exact_power10:
  "e + int k \<le> ideal \<Longrightarrow> c mod 10 \<noteq> 0 \<or> e + int k = ideal \<Longrightarrow>
     reduce_exact (c * 10 ^ k) e ideal = (c, e + int k)"
proof (induction k arbitrary: e)
  case 0
  then show ?case by (subst reduce_exact.simps) auto
next
  case (Suc k)
  from Suc.prems have lt: "e < ideal" by simp
  have m: "c * 10 ^ Suc k mod 10 = 0" by simp
  have d: "c * 10 ^ Suc k div 10 = c * 10 ^ k" by simp
  have "reduce_exact (c * 10 ^ k) (e + 1) ideal = (c, e + 1 + int k)"
    using Suc.prems by (intro Suc.IH) auto
  then have "reduce_exact (c * 10 ^ Suc k div 10) (e + 1) ideal = (c, e + int (Suc k))"
    by (simp only: d) (simp add: add.assoc)
  with lt m show ?case
    by (subst reduce_exact.simps) (simp only: if_True simp_thms)
qed

lemma round_half_even_1: "0 < k \<Longrightarrow> round_half_even (Suc 0) k = 0"
proof -
  assume "0 < k"
  then obtain j where j: "k = Suc j" by (cases k) auto
  have "(1::nat) \<le> 10 ^ j" by simp
  then have ge: "(10::nat) \<le> 10 * 10 ^ j" by linarith
  then have less: "Suc 0 < 10 * 10 ^ j" by linarith
  have d: "Suc 0 div (10 * 10 ^ j) = 0" using less by (rule div_less)
  have m: "Suc 0 mod (10 * 10 ^ j) = Suc 0" using less by (rule mod_less)
  from ge have "\<not> (10::nat) * 10 ^ j < 2" "(2::nat) \<noteq> 10 * 10 ^ j" by linarith+
  then show ?thesis by (simp add: round_half_even_def Let_def j d m)
qed

lemma dec_truediv_exact:
  assumes "coeff a \<noteq> 0" "coeff b \<noteq> 0"
    and "shift = int (ndigits (coeff b)) - int (ndigits (coeff a)) + int prec + 1"
    and "0 \<le> shift"
    and "(coeff a * 10 ^ nat shift) mod coeff b = 0"
    and "reduce_exact ((coeff a * 10 ^ nat shift) div coeff b) (expo a - expo b - shift)
           (expo a - expo b) = (q', e')"
  shows "dec_truediv a b = dec_fix (Decimal (dsign a \<noteq> dsign b) q' e')"
  using assms by (simp add: dec_truediv_def Let_def)

lemma minimal_value_eq:
  "0 \<le> precision c \<Longrightarrow>
     minimal_value c =
       Inr (Decimal False (if precision c \<le> - Etiny then 1 else 0) (max (- precision c) Etiny))"
proof -
  assume p: "0 \<le> precision c"
  define n where "n = nat (precision c)"
  with p have pn: "precision c = int n" by simp
  let ?a = "Decimal False 1 0" and ?b = "from_int (10 ^ n)"
  have cb: "coeff ?b = 10 ^ n" by (simp add: from_int_def nat_power_eq)
  have eb: "expo ?b = 0" "dsign ?b = False" by (simp_all add: from_int_def)
  have sh: "int (n + 29) = int (ndigits (coeff ?b)) - int (ndigits (coeff ?a)) + int prec + 1"
    by (simp add: cb ndigits_power10 prec_def)
  have m: "(coeff ?a * 10 ^ nat (int (n + 29))) mod coeff ?b = 0"
    by (simp add: cb power_add del: of_nat_add)
  have q: "(coeff ?a * 10 ^ nat (int (n + 29))) div coeff ?b = 1 * 10 ^ 29"
    by (simp add: cb power_add del: of_nat_add)
  have red: "reduce_exact ((coeff ?a * 10 ^ nat (int (n + 29))) div coeff ?b)
               (expo ?a - expo ?b - int (n + 29)) (expo ?a - expo ?b) = (1, - int n)"
    unfolding q using reduce_exact_power10 [of "- int (n + 29)" 29 0 1] by (simp add: eb)
  have div1: "dec_truediv ?a ?b = dec_fix (Decimal False 1 (- int n))"
    using dec_truediv_exact [OF _ _ sh _ m red] by (simp add: cb eb)
  have "dec_fix (Decimal False 1 (- int n)) =
        Inr (Decimal False (if int n \<le> - Etiny then 1 else 0) (max (- int n) Etiny))"
  proof (cases "int n \<le> - Etiny")
    case True
    then show ?thesis
      by (simp add: dec_fix_def Let_def prec_def Etop_def Etiny_def Emax_def Emin_def max_def)
  next
    case False
    then have k: "0 < nat (Etiny + int n)" by simp
    from False show ?thesis
      by (simp add: dec_fix_def Let_def prec_def Etop_def Emax_def max_def round_half_even_1 [OF k])
  qed
  with div1 show ?thesis by (simp add: minimal_value_def pn)
qed

lemma adjusted_zero: "coeff d = 0 \<Longrightarrow> adjusted d = expo d"
  by (simp add: adjusted_def)

lemma dec_fix_id:
  assumes "ndigits (coeff d) \<le> prec" "Etiny \<le> expo d" "adjusted d \<le> Emax"
  shows "dec_fix d = Inr d"
proof (cases "coeff d = 0")
  case True
  with assms show ?thesis by (cases d) (simp add: dec_fix_def adjusted_def)
next
  case False
  from assms have "\<not> Etop < int (ndigits (coeff d)) + expo d - int prec"
    by (simp add: adjusted_def Etop_def)
  moreover from assms have "\<not> expo d < max (int (ndigits (coeff d)) + expo d - int prec) Etiny"
    by simp
  ultimately show ?thesis using False by (simp add: dec_fix_def Let_def)
qed

lemma rescale_expo [simp]: "expo (rescale d e) = e"
  by (simp add: rescale_def)

lemma rescale_dsign [simp]: "dsign (rescale d e) = dsign d"
  by (simp add: rescale_def)

lemma rescale_same: "expo d = e \<Longrightarrow> rescale d e = d"
  by (cases d) (simp add: rescale_def)

lemma rescale_zero: "coeff d = 0 \<Longrightarrow> rescale d e = Decimal (dsign d) 0 e"
  by (simp add: rescale_def)

lemma round_half_even_less_iff:
  assumes N: "even N"
  shows "round_half_even c k < N \<longleftrightarrow> 2 * c + 10 ^ k < 2 * N * 10 ^ k"
proof -
  define T :: nat where "T = 10 ^ k"
  define q where "q = c div T"
  define r where "r = c mod T"
  have T: "0 < T" by (simp add: T_def)
  have c: "c = q * T + r" by (simp add: q_def r_def)
  have r: "r < T" using T by (simp add: r_def)
  define up where "up \<longleftrightarrow> T < 2 * r \<or> (2 * r = T \<and> odd q)"
  have rhe: "round_half_even c k = (if up then q + 1 else q)"
    by (simp add: round_half_even_def Let_def up_def q_def r_def T_def)
  have e1: "2 * N * T = 2 * (N * T)" by simp
  have e2: "2 * c = 2 * (q * T) + 2 * r" using c by simp
  have small: "2 * c + T < 2 * N * T" if "q + 2 \<le> N"
  proof -
    from that have "(q + 2) * T \<le> N * T" by (rule mult_le_mono1)
    then have "q * T + 2 * T \<le> N * T" by (simp only: add_mult_distrib)
    with r show ?thesis unfolding e1 e2 by linarith
  qed
  have big: "\<not> 2 * c + T < 2 * N * T" if "N \<le> q"
  proof -
    from that have "N * T \<le> q * T" by (rule mult_le_mono1)
    then show ?thesis unfolding e1 e2 by linarith
  qed
  have edge: "2 * c + T < 2 * N * T \<longleftrightarrow> 2 * r < T" if "q + 1 = N"
  proof -
    have "(q + 1) * T = q * T + T" by (simp only: add_mult_distrib mult_1)
    with that have "N * T = q * T + T" by simp
    then show ?thesis unfolding e1 e2 by linarith
  qed
  have odd_q: "odd q" if "q + 1 = N" using N that by auto
  consider "q + 2 \<le> N" | "q + 1 = N" | "N \<le> q" by linarith
  then show ?thesis
  proof cases
    case 1
    with small show ?thesis by (simp add: rhe T_def)
  next
    case 2
    have "up \<longleftrightarrow> \<not> 2 * r < T" using odd_q [OF 2] by (auto simp: up_def)
    with 2 edge [OF 2] show ?thesis by (auto simp: rhe T_def)
  next
    case 3
    with big show ?thesis by (simp add: rhe T_def)
  qed
qed

lemma quantize_cases:
  "quantize v q =
     (if Etiny \<le> expo q \<and> expo q \<le> Emax \<and>
         (coeff v = 0 \<or>
          (adjusted v \<le> Emax \<and> adjusted v - expo q + 1 \<le> int prec \<and>
           adjusted (rescale v (expo q)) \<le> Emax \<and>
           ndigits (coeff (rescale v (expo q))) \<le> prec))
      then dec_fix (rescale v (expo q)) else Inl InvalidOperation)"
  by (auto simp: quantize_def Let_def rescale_zero)

lemma fits_zero: "coeff v = 0 \<Longrightarrow> fits v e"
  by (simp add: fits_def prec_def)

lemma fits_pad:
  assumes "coeff v \<noteq> 0" "e \<le> expo v"
  shows "fits v e \<longleftrightarrow> adjusted v - e + 1 \<le> int prec"
    and "fits v e \<longleftrightarrow> ndigits (coeff (rescale v e)) \<le> prec"
proof -
  let ?k = "nat (expo v - e)"
  from assms have nd: "ndigits (coeff v * 10 ^ ?k) = ndigits (coeff v) + ?k"
    by (simp add: ndigits_mult_power10)
  from assms have f: "fits v e \<longleftrightarrow> ndigits (coeff v * 10 ^ ?k) \<le> prec"
    by (simp add: fits_def ndigits_le_iff prec_def)
  from assms show "fits v e \<longleftrightarrow> ndigits (coeff (rescale v e)) \<le> prec"
    by (simp add: f rescale_def)
  from assms show "fits v e \<longleftrightarrow> adjusted v - e + 1 \<le> int prec"
    unfolding f nd adjusted_def by auto
qed

lemma fits_round:
  assumes "coeff v \<noteq> 0" "expo v < e"
  shows "fits v e \<longleftrightarrow> ndigits (coeff (rescale v e)) \<le> prec"
    and "fits v e \<Longrightarrow> adjusted v - e + 1 \<le> int prec"
proof -
  let ?k = "nat (e - expo v)"
  have ev: "even ((10::nat) ^ prec)" by (simp add: prec_def)
  from assms have f: "fits v e \<longleftrightarrow> round_half_even (coeff v) ?k < 10 ^ prec"
    unfolding round_half_even_less_iff [OF ev] by (simp add: fits_def)
  from assms show "fits v e \<longleftrightarrow> ndigits (coeff (rescale v e)) \<le> prec"
    by (simp add: f rescale_def ndigits_le_iff prec_def)
  assume "fits v e"
  with assms have "2 * coeff v + 10 ^ ?k < 2 * 10 ^ prec * 10 ^ ?k" by (simp add: fits_def)
  then have "coeff v < 10 ^ (prec + ?k)" by (simp add: power_add)
  then have "ndigits (coeff v) \<le> prec + ?k" by (simp add: ndigits_le_iff prec_def)
  with assms show "adjusted v - e + 1 \<le> int prec" by (simp add: adjusted_def)
qed

lemma fits_checks:
  assumes "coeff v \<noteq> 0"
  shows "fits v e \<longleftrightarrow>
           adjusted v - e + 1 \<le> int prec \<and> ndigits (coeff (rescale v e)) \<le> prec"
proof (cases "e \<le> expo v")
  case True
  with fits_pad [OF assms] show ?thesis by blast
next
  case False
  with fits_round [OF assms, of e] show ?thesis by auto
qed

lemma quantize_eq:
  assumes "Etiny \<le> expo q" "expo q \<le> 0"
  shows "quantize v q = (if fits v (expo q) then Inr (rescale v (expo q)) else Inl InvalidOperation)"
proof (cases "coeff v = 0")
  case True
  with assms have "dec_fix (rescale v (expo q)) = Inr (rescale v (expo q))"
    by (intro dec_fix_id) (simp_all add: rescale_zero adjusted_def Emax_def prec_def)
  with True assms show ?thesis by (simp add: quantize_cases fits_zero Emax_def)
next
  case False
  show ?thesis
  proof (cases "fits v (expo q)")
    case True
    with fits_checks [OF False, of "expo q"] have 1: "adjusted v - expo q + 1 \<le> int prec"
      and 2: "ndigits (coeff (rescale v (expo q))) \<le> prec" by auto
    from 1 assms have 3: "adjusted v \<le> Emax" by (simp add: prec_def Emax_def)
    from 2 assms have 4: "adjusted (rescale v (expo q)) \<le> Emax"
      by (simp add: adjusted_def prec_def Emax_def)
    from 2 4 assms have "dec_fix (rescale v (expo q)) = Inr (rescale v (expo q))"
      by (intro dec_fix_id) simp_all
    with True False 1 2 3 4 assms show ?thesis by (simp add: quantize_cases Emax_def)
  next
    case nf: False
    with False fits_checks [OF False, of "expo q"] show ?thesis by (auto simp: quantize_cases)
  qed
qed

lemma quantize_fits_result:
  assumes "Etiny \<le> expo q" "expo q \<le> 0" "quantize v q = Inr r"
  shows "r = rescale v (expo q)" "fits r (expo q)" "expo r = expo q" "ndigits (coeff r) \<le> prec"
proof -
  from assms have f: "fits v (expo q)" and r: "r = rescale v (expo q)"
    by (auto simp: quantize_eq split: if_splits)
  show "r = rescale v (expo q)" by fact
  show e: "expo r = expo q" by (simp add: r)
  show n: "ndigits (coeff r) \<le> prec"
  proof (cases "coeff v = 0")
    case True
    then show ?thesis by (simp add: r rescale_zero prec_def)
  next
    case False
    with f fits_checks [OF False, of "expo q"] show ?thesis by (simp add: r)
  qed
  from n e show "fits r (expo q)" by (simp add: fits_def ndigits_le_iff prec_def)
qed

lemma fits_same_expo: "expo r = e \<Longrightarrow> fits r e \<longleftrightarrow> coeff r < 10 ^ prec"
  by (simp add: fits_def)

lemma quantize_idem:
  assumes "Etiny \<le> expo q" "expo q \<le> 0" "quantize v q = Inr r"
  shows "quantize r q = Inr r"
  using quantize_fits_result [OF assms] assms(1,2) by (simp add: quantize_eq rescale_same)

lemma in_validator_simps [simp]:
  "in_validator (Inr x) = Inr x"
  "in_validator (Inl (TypeError m)) = Inl ValidationError"
  "in_validator (Inl InvalidOperation) = Inl InvalidOperation"
  by (simp_all add: in_validator_def)

lemma and_then_simps [simp]:
  "and_then (Inl e) f = Inl e"
  "and_then (Inr x) f = f x"
  by (simp_all add: and_then_def)

lemma minimal_value_expo:
  assumes "0 \<le> precision c"
  shows "\<exists>q. minimal_value c = Inr q \<and> expo q = max (- precision c) Etiny \<and>
              Etiny \<le> expo q \<and> expo q \<le> 0"
  using assms by (simp add: minimal_value_eq) (simp add: Etiny_def Emin_def prec_def)

lemma quantize_amount_eq:
  "quantize_amount v c =
     (if precision c < 0
      then Inl (TypeError ''unsupported operand type(s) for /: Decimal and float'')
      else if fits v (max (- precision c) Etiny)
      then Inr (rescale v (max (- precision c) Etiny))
      else Inl InvalidOperation)"
proof (cases "precision c < 0")
  case True
  then show ?thesis by (simp add: quantize_amount_def minimal_value_def)
next
  case False
  then have p: "0 \<le> precision c" by simp
  from minimal_value_expo [OF p] obtain q where q: "minimal_value c = Inr q"
    "expo q = max (- precision c) Etiny" "Etiny \<le> expo q" "expo q \<le> 0" by blast
  from quantize_eq [OF q(3,4), of v] q(1,2) False show ?thesis
    by (simp add: quantize_amount_def)
qed

lemma CurrencyAmount_init_eq:
  "CurrencyAmount_init v c =
     (if precision c < 0 then Inl ValidationError
      else if fits v (max (- precision c) Etiny)
      then Inr \<lparr>currency = c, amount = rescale v (max (- precision c) Etiny)\<rparr>
      else Inl InvalidOperation)"
  by (simp add: CurrencyAmount_init_def quantize_amount_eq)

lemma grid_exponent: "0 \<le> p \<Longrightarrow> p \<le> 1000026 \<Longrightarrow> max (- p) Etiny = - p"
  by (simp add: Etiny_def Emin_def prec_def)

lemma fits_rescale: "fits v e \<Longrightarrow> fits (rescale v e) e"
proof (cases "coeff v = 0")
  case True
  then show ?thesis by (simp add: rescale_zero fits_def prec_def)
next
  case False
  assume "fits v e"
  with fits_checks [OF False, of e] have "ndigits (coeff (rescale v e)) \<le> prec" by simp
  then show ?thesis by (simp add: fits_same_expo ndigits_le_iff prec_def)
qed

lemma rescale_idem: "rescale (rescale v e) e = rescale v e"
  by (simp add: rescale_same)

lemma CurrencyAmount_init_idem:
  "CurrencyAmount_init v c = Inr r \<Longrightarrow> CurrencyAmount_init (amount r) (currency r) = Inr r"
  by (auto simp: CurrencyAmount_init_eq fits_rescale rescale_idem split: if_splits)

lemma and_then_Inr: "and_then m f = Inr r \<longleftrightarrow> (\<exists>x. m = Inr x \<and> f x = Inr r)"
  by (cases m) simp_all

lemma init_quantized:
  assumes "CurrencyAmount_init v c = Inr r"
  shows "currency r = c" "0 \<le> precision c"
    "amount r = rescale v (max (- precision c) Etiny)"
    "expo (amount r) = max (- precision c) Etiny"
    "coeff (amount r) < 10 ^ prec"
proof -
  let ?e = "max (- precision c) Etiny"
  from assms have p: "0 \<le> precision c" and f: "fits v ?e"
    and r: "r = \<lparr>currency = c, amount = rescale v ?e\<rparr>"
    by (auto simp: CurrencyAmount_init_eq split: if_splits)
  show "currency r = c" "0 \<le> precision c" "amount r = rescale v ?e" "expo (amount r) = ?e"
    using p by (simp_all add: r)
  from fits_rescale [OF f] show "coeff (amount r) < 10 ^ prec"
    by (simp add: r fits_same_expo)
qed

lemma quantize_amount_unfold:
  "and_then (minimal_value c) (\<lambda>q. and_then (quantize x q) g) = and_then (quantize_amount x c) g"
  by (cases "minimal_value c") (simp_all add: quantize_amount_def)

lemma quantize_amount_unfold':
  "and_then (minimal_value c) (\<lambda>q. quantize x q) = quantize_amount x c"
  by (simp add: quantize_amount_def)

lemma requantize:
  "0 \<le> precision c \<Longrightarrow>
     and_then (quantize_amount x c) (\<lambda>y. CurrencyAmount_init y c) = CurrencyAmount_init x c"
  by (simp add: quantize_amount_eq CurrencyAmount_init_eq fits_rescale rescale_idem)


lemma construct_valid: "construct k = Inr r \<Longrightarrow> valid_amount r"
proof -
  assume k: "construct k = Inr r"
  have "\<exists>v c. CurrencyAmount_init v c = Inr r"
  proof (cases k)
    case (FromFraction x c n)
    with k show ?thesis by (auto simp: from_fraction_def and_then_Inr)
  qed (use k in \<open>auto simp: get_amount_def currency_mul_def currency_rmul_def zero_def one_def
        fraction_get_amount_def add_def sub_def mul_def truediv_def floordiv_def and_then_Inr
        split: if_splits\<close>)
  then show ?thesis using CurrencyAmount_init_idem by (auto simp: valid_amount_def)
qed

lemma round_half_even_bounds:
  "c div 10 ^ k \<le> round_half_even c k" "round_half_even c k \<le> c div 10 ^ k + 1"
  by (simp_all add: round_half_even_def Let_def)



lemma round_half_even_error:
  "2 * \<bar>int (round_half_even c k) * 10 ^ k - int c\<bar> \<le> 10 ^ k"
proof -
  define T :: nat where "T = 10 ^ k"
  define q where "q = c div T"
  define r where "r = c mod T"
  have T: "0 < T" by (simp add: T_def)
  have c: "int c = int q * int T + int r"
    unfolding q_def r_def by (metis of_nat_add of_nat_mult div_mult_mod_eq)
  have r: "r < T" using T by (simp add: r_def)
  define up where "up \<longleftrightarrow> T < 2 * r \<or> (2 * r = T \<and> odd q)"
  have rhe: "round_half_even c k = (if up then q + 1 else q)"
    by (simp add: round_half_even_def Let_def up_def q_def r_def T_def)
  have T': "(10::int) ^ k = int T" by (simp add: T_def)
  show ?thesis
  proof (cases up)
    case True
    then have "T \<le> 2 * r" by (auto simp: up_def)
    then have "int T \<le> 2 * int r" by linarith
    moreover have "int (q + 1) * int T - int c = int T - int r"
      unfolding c by (simp add: algebra_simps)
    ultimately show ?thesis using r unfolding rhe T' by (simp add: True)
  next
    case False
    then have "2 * r \<le> T" by (auto simp: up_def)
    then have "2 * int r \<le> int T" by linarith
    moreover have "int q * int T - int c = - int r" unfolding c by simp
    ultimately show ?thesis unfolding rhe T' by (simp add: False)
  qed
qed

lemma pow10_add: "10 powr real_of_int (e + int k) = 10 powr real_of_int e * 10 ^ k"
  by (simp add: powr_add powr_realpow)

lemma pow10_pos: "0 < (10::real) powr x"
  by simp

lemma pow10_mono: "e \<le> e' \<Longrightarrow> (10::real) powr real_of_int e \<le> 10 powr real_of_int e'"
  by (simp add: powr_mono)

lemma dec_value_Decimal:
  "dec_value (Decimal s c e) = (if s then - real c else real c) * 10 powr real_of_int e"
  by (simp add: dec_value_def signed_coeff_def)

lemma dec_value_zero: "coeff d = 0 \<Longrightarrow> dec_value d = 0"
  by (simp add: dec_value_def signed_coeff_def)

lemma dec_value_pad:
  "dec_value (Decimal s (c * 10 ^ k) e) = dec_value (Decimal s c (e + int k))"
  unfolding dec_value_Decimal pow10_add by simp

lemma dec_value_diff:
  "\<bar>dec_value (Decimal s c e) - dec_value (Decimal s c' e)\<bar> =
     \<bar>real_of_int (int c - int c')\<bar> * 10 powr real_of_int e"
proof -
  have "dec_value (Decimal s c e) - dec_value (Decimal s c' e) =
        (if s then - 1 else 1) * real_of_int (int c - int c') * 10 powr real_of_int e"
    by (simp add: dec_value_Decimal algebra_simps)
  then show ?thesis by (simp add: abs_mult)
qed

lemma rescale_error:
  "\<bar>dec_value (rescale d e) - dec_value d\<bar> \<le> 10 powr real_of_int e / 2"
proof (cases d)
  case (Decimal s c x)
  show ?thesis
  proof (cases "c = 0")
    case True
    with Decimal show ?thesis by (simp add: rescale_def dec_value_Decimal)
  next
    case False
    show ?thesis
    proof (cases "e \<le> x")
      case True
      then have "x = e + int (nat (x - e))" by simp
      then have "dec_value (Decimal s (c * 10 ^ nat (x - e)) e) = dec_value (Decimal s c x)"
        by (metis dec_value_pad)
      with Decimal False True show ?thesis by (simp add: rescale_def)
    next
      case lt: False
      define k where "k = nat (e - x)"
      have e: "e = x + int k" using lt by (simp add: k_def)
      have p: "10 powr real_of_int e = 10 powr real_of_int x * 10 ^ k"
        unfolding e by (rule pow10_add)
      have v: "dec_value (Decimal s (round_half_even c k) e) =
               dec_value (Decimal s (round_half_even c k * 10 ^ k) x)"
        unfolding e dec_value_pad ..
      have "2 * \<bar>real_of_int (int (round_half_even c k * 10 ^ k) - int c)\<bar> \<le> 10 ^ k"
      proof -
        have "2 * \<bar>int (round_half_even c k) * 10 ^ k - int c\<bar> \<le> 10 ^ k"
          by (rule round_half_even_error)
        then have "real_of_int (2 * \<bar>int (round_half_even c k) * 10 ^ k - int c\<bar>) \<le> real_of_int (10 ^ k)"
          by (rule of_int_le_iff [THEN iffD2])
        then show ?thesis by simp
      qed
      then have "\<bar>real_of_int (int (round_half_even c k * 10 ^ k) - int c)\<bar> * 10 powr real_of_int x
                 \<le> (10 ^ k / 2) * 10 powr real_of_int x"
        by (intro mult_right_mono) simp_all
      then have "\<bar>dec_value (Decimal s (round_half_even c k * 10 ^ k) x) - dec_value (Decimal s c x)\<bar>
                 \<le> 10 powr real_of_int e / 2"
        unfolding dec_value_diff p by (simp add: algebra_simps)
      then have "\<bar>dec_value (Decimal s (round_half_even c k) e) - dec_value (Decimal s c x)\<bar>
                 \<le> 10 powr real_of_int e / 2"
        by (simp only: v)
      moreover from Decimal False lt have "rescale d e = Decimal s (round_half_even c k) e"
        by (simp add: rescale_def k_def)
      ultimately show ?thesis by (simp only: Decimal)
    qed
  qed
qed

lemma dec_fix_error:
  assumes "dec_fix d = Inr d'"
  shows "dec_value d' = dec_value d \<or>
         (\<bar>dec_value d' - dec_value d\<bar> \<le> 10 powr real_of_int (expo d') / 2 \<and>
          (expo d' = Etiny \<or> 10 ^ 27 \<le> coeff d'))"
proof (cases "coeff d = 0")
  case True
  with assms have "coeff d' = 0" by (auto simp: dec_fix_def)
  with True show ?thesis by (simp add: dec_value_zero)
next
  case nz: False
  define em where "em = max (int (ndigits (coeff d)) + expo d - int prec) Etiny"
  show ?thesis
  proof (cases "expo d < em")
    case False
    with assms nz have "d' = d" by (auto simp: dec_fix_def Let_def em_def split: if_splits)
    then show ?thesis by simp
  next
    case lt: True
    define k where "k = nat (em - expo d)"
    define c' where "c' = round_half_even (coeff d) k"
    from lt have k: "0 < k" "em = expo d + int k" by (simp_all add: k_def)
    have resc: "rescale d em = Decimal (dsign d) c' em"
      using nz lt by (simp add: rescale_def c'_def k_def)
    have err: "\<bar>dec_value (Decimal (dsign d) c' em) - dec_value d\<bar> \<le> 10 powr real_of_int em / 2"
      using rescale_error [of d em] by (simp only: resc)
    have "int (ndigits (coeff d)) + expo d - int prec \<le> em" by (simp add: em_def)
    with k(2) have kge: "int (ndigits (coeff d)) - int prec \<le> int k" by linarith
    have c'_le: "c' \<le> 10 ^ prec"
    proof -
      from kge have "ndigits (coeff d) \<le> prec + k" by simp
      then have "(10::nat) ^ ndigits (coeff d) \<le> 10 ^ (prec + k)" by (simp add: power_increasing)
      with ndigits_upper [of "coeff d"] have "coeff d < 10 ^ prec * 10 ^ k"
        by (simp add: power_add)
      then have "coeff d div 10 ^ k < 10 ^ prec" by (simp add: less_mult_imp_div_less)
      with round_half_even_bounds(2) [of "coeff d" k] show ?thesis by (simp add: c'_def)
    qed
    have big: "10 ^ 27 \<le> c'" if "em \<noteq> Etiny"
    proof -
      from that have em0: "em = int (ndigits (coeff d)) + expo d - int prec"
        by (simp add: em_def max_def split: if_splits)
      with k(2) have nd: "ndigits (coeff d) = 28 + k" by (simp add: prec_def)
      from nz ndigits_lower [of "coeff d"] have "10 ^ (ndigits (coeff d) - 1) \<le> coeff d" by simp
      then have "10 ^ 27 * 10 ^ k \<le> coeff d" by (simp add: nd power_add)
      then have "10 ^ 27 \<le> coeff d div 10 ^ k" by (simp add: less_eq_div_iff_mult_less_eq)
      with round_half_even_bounds(1) [of "coeff d" k] show ?thesis by (simp add: c'_def)
    qed
    show ?thesis
    proof (cases "prec < ndigits c'")
      case False
      with assms nz lt have d': "d' = Decimal (dsign d) c' em"
        by (auto simp: dec_fix_def Let_def em_def c'_def k_def split: if_splits)
      from err big show ?thesis by (auto simp: d')
    next
      case True
      with assms nz lt have d': "d' = Decimal (dsign d) (c' div 10) (em + 1)"
        by (auto simp: dec_fix_def Let_def em_def c'_def k_def split: if_splits)
      from True have "\<not> ndigits c' \<le> prec" by simp
      moreover have "ndigits c' \<le> prec \<longleftrightarrow> c' < 10 ^ prec"
        by (rule ndigits_le_iff) (simp add: prec_def)
      ultimately have "\<not> c' < 10 ^ prec" by blast
      with c'_le have c': "c' = 10 ^ prec" by simp
      have "dec_value (Decimal (dsign d) (10 ^ 27 * 10 ^ 1) em) =
            dec_value (Decimal (dsign d) (10 ^ 27) (em + int 1))"
        by (rule dec_value_pad)
      then have same: "dec_value d' = dec_value (Decimal (dsign d) c' em)"
        by (simp add: d' c' prec_def)
      have ex: "expo d' = em + 1" by (simp add: d')
      have mono: "(10::real) powr real_of_int em \<le> 10 powr real_of_int (em + 1)"
        by (rule pow10_mono) simp
      from err have "\<bar>dec_value d' - dec_value d\<bar> \<le> 10 powr real_of_int em / 2"
        by (simp only: same)
      with mono have "\<bar>dec_value d' - dec_value d\<bar> \<le> 10 powr real_of_int (em + 1) / 2"
        by linarith
      then have "\<bar>dec_value d' - dec_value d\<bar> \<le> 10 powr real_of_int (expo d') / 2"
        by (simp only: ex)
      moreover have "10 ^ 27 \<le> coeff d'" by (simp add: d' c' prec_def)
      ultimately show ?thesis by blast
    qed
  qed
qed

lemma dec_value_mul:
  "dec_value (Decimal (dsign a \<noteq> dsign b) (coeff a * coeff b) (expo a + expo b)) =
     dec_value a * dec_value b"
  by (cases a; cases b) (auto simp: dec_value_Decimal powr_add)

lemma dec_truediv_unit:
  assumes a: "coeff a < 10 ^ prec" and lo: "Etiny \<le> expo a - e" and hi: "expo a - e + 27 \<le> Emax"
  shows "dec_truediv a (Decimal False 1 e) = Inr (Decimal (dsign a) (coeff a) (expo a - e))"
proof (cases "coeff a = 0")
  case True
  with lo hi show ?thesis
    by (simp add: dec_truediv_def dec_fix_def Let_def min_def max_def)
next
  case False
  let ?b = "Decimal False 1 e"
  from a have nd: "ndigits (coeff a) \<le> 28" by (simp add: ndigits_le_iff prec_def)
  define k where "k = 30 - ndigits (coeff a)"
  have sh: "int k = int (ndigits (coeff ?b)) - int (ndigits (coeff a)) + int prec + 1"
    using nd by (simp add: k_def prec_def)
  have m: "(coeff a * 10 ^ nat (int k)) mod coeff ?b = 0" by simp
  have "reduce_exact (coeff a * 10 ^ k) (expo a - e - int k) (expo a - e) =
        (coeff a, expo a - e - int k + int k)"
    by (rule reduce_exact_power10) simp_all
  then have red: "reduce_exact ((coeff a * 10 ^ nat (int k)) div coeff ?b)
      (expo a - expo ?b - int k) (expo a - expo ?b) = (coeff a, expo a - e)"
    by simp
  have "dec_truediv a ?b = dec_fix (Decimal (dsign a \<noteq> dsign ?b) (coeff a) (expo a - e))"
    using False by (intro dec_truediv_exact [OF _ _ sh _ m red]) simp_all
  also have "\<dots> = Inr (Decimal (dsign a) (coeff a) (expo a - e))"
    using nd lo hi by (simp add: dec_fix_id adjusted_def prec_def)
  finally show ?thesis .
qed

lemma FRACTIONS_unit:
  "map_of FRACTIONS n = Some m \<Longrightarrow> m = Decimal False 1 (expo m) \<and> - 18 \<le> expo m \<and> expo m \<le> 0"
  by (auto simp: FRACTIONS_def split: if_splits)

lemma from_fraction_eq:
  "0 \<le> precision c \<Longrightarrow>
     from_fraction a c n =
       and_then (get_fraction c n) (\<lambda>f.
       and_then (dec_mul (to_decimal a) (multiplier f)) (\<lambda>x. CurrencyAmount_init x c))"
  by (cases "get_fraction c n")
     (simp_all add: from_fraction_def quantize_amount_unfold requantize)

lemma quantized_product_error:
  assumes p: "0 \<le> p" "p \<le> 1000026"
    and x: "dec_fix d = Inr x" and f: "fits x (- p)"
  shows "\<bar>dec_value (rescale x (- p)) - dec_value d\<bar> < 10 powr real_of_int (- p)"
proof -
  define U :: real where "U = 10 powr real_of_int (- p)"
  define V :: real where "V = 10 powr real_of_int (expo x)"
  have u: "0 < U" by (simp add: U_def)
  have r: "\<bar>dec_value (rescale x (- p)) - dec_value x\<bar> \<le> U / 2"
    unfolding U_def by (rule rescale_error)
  have goal: "\<bar>dec_value (rescale x (- p)) - dec_value d\<bar> < U"
    using dec_fix_error [OF x]
  proof
    assume "dec_value x = dec_value d"
    with r u show ?thesis by linarith
  next
    assume rounded: "\<bar>dec_value x - dec_value d\<bar> \<le> 10 powr real_of_int (expo x) / 2 \<and>
      (expo x = Etiny \<or> 10 ^ 27 \<le> coeff x)"
    then have e1: "\<bar>dec_value x - dec_value d\<bar> \<le> V / 2" by (simp add: V_def)
    have le: "expo x \<le> - p"
    proof (rule ccontr)
      assume "\<not> expo x \<le> - p"
      then have gt: "- p < expo x" by simp
      with p have "expo x \<noteq> Etiny" by (simp add: Etiny_def Emin_def prec_def)
      with rounded have c: "10 ^ 27 \<le> coeff x" by simp
      from gt f have lt: "coeff x * 10 ^ nat (expo x - - p) < 10 ^ prec" by (simp add: fits_def)
      have "(10::nat) ^ 1 \<le> 10 ^ nat (expo x - - p)"
        using gt by (intro power_increasing) simp_all
      then have "coeff x * 10 ^ 1 \<le> coeff x * 10 ^ nat (expo x - - p)" by (rule mult_le_mono2)
      from this lt have "coeff x * 10 ^ 1 < 10 ^ prec" by (rule le_less_trans)
      then have "coeff x * 10 < 10 ^ 28" by (simp add: prec_def)
      with c show False by simp
    qed
    show ?thesis
    proof (cases "expo x = - p")
      case True
      then have "rescale x (- p) = x" by (rule rescale_same)
      moreover from True have "V = U" by (simp add: U_def V_def)
      ultimately show ?thesis using e1 u by simp
    next
      case False
      with le have "expo x \<le> - p - 1" by simp
      then have "V \<le> 10 powr real_of_int (- p - 1)"
        unfolding V_def by (rule pow10_mono)
      moreover have "10 powr real_of_int (- p - 1 + int 1) = 10 powr real_of_int (- p - 1) * 10 ^ 1"
        by (rule pow10_add)
      then have "U = 10 powr real_of_int (- p - 1) * 10" by (simp add: U_def)
      ultimately have "V \<le> U / 10" by simp
      with e1 r u show ?thesis by linarith
    qed
  qed
  then show ?thesis by (simp only: U_def)
qed

section \<open>Serialization\<close>

lemma registry_from_code: "\<forall>c \<in> set registry. from_code (code c) = Inr c"
  by (simp add: registry_defs from_code_def upper_def upper_char_def currency_defs)

text \<open>
  Claim C2. \<open>registry\<close> lists the eleven currencies of the table, field by field. For
  each of them, \<^verbatim>\<open>Currency.from_code\<close> of its code returns it, \<^verbatim>\<open>c.dict()\<close> is the one-field
  dictionary \<^verbatim>\<open>{"code": c.code}\<close>, and constructing a \<open>Currency\<close> from that dictionary
  gives back \<open>c\<close>, field for field.
\<close>

theorem serialization_roundtrip:
  "c \<in> set registry \<Longrightarrow>
     from_code (code c) = Inr c \<and> dict c = [(''code'', PyStr (code c))] \<and>
     Currency_init (dict c) = Inr c"
  using registry_roundtrip registry_from_code by (simp add: dict_def)

theorem serialization_roundtrip_witness:
  "USD \<in> set registry \<and> from_code ''USD'' = Inr USD \<and>
   dict USD = [(''code'', PyStr ''USD'')] \<and>
   Currency_init [(''code'', PyStr ''USD'')] = Inr USD"
proof -
  have r: "USD \<in> set registry" by (simp add: registry_def)
  have c: "code USD = ''USD''" by (simp add: USD_def)
  have d: "dict USD = [(''code'', PyStr ''USD'')]" by (simp add: dict_def c)
  from serialization_roundtrip [OF r] r show ?thesis by (simp add: c d)
qed

section \<open>Lookups\<close>

text \<open>
  Claim C8. For an ASCII code, \<^verbatim>\<open>Currency.from_code\<close> looks the upper-cased code up: two
  spellings with the same upper-case form give the same result, a code whose upper-case
  form is a key of the table gives the currency of that code, and any other code raises
  \<open>KeyError\<close> with the upper-cased code. \<^verbatim>\<open>get_fraction\<close> with a name that is no key of
  \<open>FRACTIONS\<close> raises \<open>RuntimeError\<close> and returns no fraction.
\<close>

theorem lookup_errors:
  "(is_ascii c \<and> is_ascii c' \<and> upper c = upper c' \<longrightarrow> from_code c = from_code c') \<and>
   (is_ascii c \<and> upper c \<in> set (map fst CURRENCIES) \<longrightarrow>
      (\<exists>cur. from_code c = Inr cur \<and> code cur = upper c)) \<and>
   (is_ascii c \<and> upper c \<notin> set (map fst CURRENCIES) \<longrightarrow>
      from_code c = Inl (KeyError (PyStr (upper c)))) \<and>
   (fraction_name \<notin> set (map fst FRACTIONS) \<longrightarrow>
      get_fraction cur' fraction_name = Inl (RuntimeError (fraction_name @ '' is not known'')))"
proof (intro conjI impI)
  assume "is_ascii c \<and> is_ascii c' \<and> upper c = upper c'"
  then show "from_code c = from_code c'" by (simp add: from_code_def)
next
  assume "is_ascii c \<and> upper c \<in> set (map fst CURRENCIES)"
  then have "upper c \<in> set (map fst CURRENCIES)" by simp
  from registry_entry [OF this] show "\<exists>cur. from_code c = Inr cur \<and> code cur = upper c"
    by (auto simp: from_code_def)
next
  assume "is_ascii c \<and> upper c \<notin> set (map fst CURRENCIES)"
  then show "from_code c = Inl (KeyError (PyStr (upper c)))"
    by (simp add: from_code_def get_unknown and_then_def)
next
  assume "fraction_name \<notin> set (map fst FRACTIONS)"
  then have "map_of FRACTIONS fraction_name = None" by (simp add: map_of_eq_None_iff)
  then show "get_fraction cur' fraction_name = Inl (RuntimeError (fraction_name @ '' is not known''))"
    by (simp add: get_fraction_def)
qed

theorem lookup_errors_witness:
  "is_ascii ''eth'' \<and> is_ascii ''ETH'' \<and> is_ascii ''ZZZ'' \<and>
   from_code ''eth'' = from_code ''ETH'' \<and> from_code ''eth'' = Inr ETH \<and>
   from_code ''ZZZ'' = Inl (KeyError (PyStr ''ZZZ'')) \<and>
   get_fraction ETH ''mwei'' = Inl (RuntimeError ''mwei is not known'')"
  using lookup_errors [of "''eth''" "''ETH''" "''mwei''" ETH] lookup_errors [of "''ZZZ''" "''ZZZ''" "''mwei''" ETH]
  by (simp add: is_ascii_def upper_def upper_char_def CURRENCIES_keys FRACTIONS_def from_code_def
      currency_defs registry_defs)

text \<open>
  Claim C9. Restoring from the compact form is case-sensitive: for every key \<open>k\<close> of the
  table (all are upper-case), \<^verbatim>\<open>Currency(code=k.lower())\<close> raises \<open>KeyError\<close>, because
  \<^verbatim>\<open>restore_from_code\<close> looks the code up as written, while
  \<^verbatim>\<open>Currency.from_code(k.lower())\<close> returns the currency of code \<open>k\<close>.
\<close>

theorem restore_is_case_sensitive:
  "k \<in> set (map fst CURRENCIES) \<Longrightarrow> upper k = k \<Longrightarrow>
     Currency_init [(''code'', PyStr (lower k))] = Inl (KeyError (PyStr (lower k))) \<and>
     (\<exists>c. from_code (lower k) = Inr c \<and> code c = k \<and> registered c)"
proof -
  assume k: "k \<in> set (map fst CURRENCIES)"
  have low: "\<forall>k \<in> set (map fst CURRENCIES). lower k \<notin> set (map fst CURRENCIES) \<and> upper (lower k) = k"
    unfolding CURRENCIES_keys by (simp add: lower_def lower_char_def upper_def upper_char_def)
  with k have 1: "lower k \<notin> set (map fst CURRENCIES)" and 2: "upper (lower k) = k" by auto
  have "Currency_init [(''code'', PyStr (lower k))] = Inl (KeyError (PyStr (lower k)))"
    by (simp add: Currency_init_def restore_from_code_def get_unknown [OF 1] and_then_def)
  moreover have "\<exists>c. from_code (lower k) = Inr c \<and> code c = k \<and> registered c"
    using registry_entry [OF k] by (simp add: from_code_def 2)
  ultimately show ?thesis by blast
qed

theorem restore_is_case_sensitive_witness:
  "''ETH'' \<in> set (map fst CURRENCIES) \<and> upper ''ETH'' = ''ETH'' \<and>
   Currency_init [(''code'', PyStr ''eth'')] = Inl (KeyError (PyStr ''eth'')) \<and>
   (\<exists>c. from_code ''eth'' = Inr c \<and> code c = ''ETH'' \<and> registered c)"
proof -
  have 1: "''ETH'' \<in> set (map fst CURRENCIES)" by (simp add: CURRENCIES_keys)
  have 2: "upper ''ETH'' = ''ETH''" by (simp add: upper_def upper_char_def)
  have 3: "lower ''ETH'' = ''eth''" by (simp add: lower_def lower_char_def)
  from restore_is_case_sensitive [OF 1 2] 1 2 show ?thesis by (simp only: 3)
qed

section \<open>Currency check of addition and subtraction\<close>

lemma currency_eq_refl: "currency_eq c c"
  by (simp add: currency_eq_def)

text \<open>
  What the check of \<^verbatim>\<open>__add__\<close> and \<^verbatim>\<open>__sub__\<close> does: an amount is returned only when
  \<^verbatim>\<open>a.currency == b.currency\<close>, and otherwise \<open>TypeError\<close> is raised with a message that
  names the two currencies. \<^verbatim>\<open>==\<close> compares the serialized forms, that is the codes; by
  \<open>registry_eq\<close> this is equality of all fields for the currencies of the table.
\<close>

lemma currency_check:
  "(add a b = Inr r \<longrightarrow> currency_eq (currency a) (currency b)) \<and>
   (sub a b = Inr r \<longrightarrow> currency_eq (currency a) (currency b)) \<and>
   (\<not> currency_eq (currency a) (currency b) \<longrightarrow>
      add a b = Inl (TypeError (''Amounts have different currencies: '' @ code (currency a) @
                                 '' and '' @ code (currency b))) \<and>
      sub a b = Inl (TypeError (''Amounts have different currencies: '' @ code (currency a) @
                                 '' and '' @ code (currency b))))"
  by (auto simp: add_def sub_def different_currencies_def)

text \<open>
  Claim C4 says that \<^verbatim>\<open>a + b\<close> and \<^verbatim>\<open>a - b\<close> succeed only for currencies that are equal by
  value, and that nothing is converted. The code does not do that. Take the dollar of the
  table, of precision 8, and a currency that differs from it in the precision alone, 2
  instead of 8. The two are different currencies, yet they have one code, so the check
  passes: adding \<open>0.00500000\<close> of the first to \<open>1.00\<close> of the second returns \<open>1.00\<close> of the
  second, the sum \<open>1.00500000\<close> rounded to two places, and subtracting returns \<open>1.00\<close> as
  well, from \<open>0.99500000\<close>. No \<open>TypeError\<close> is raised.
\<close>

theorem same_code_passes_currency_check:
  "\<lparr>code = ''USD'', precision = 2, name = ''US Dollar'', type = FIAT, symbol = Some ''$''\<rparr> \<noteq> USD \<and>
   get_amount \<lparr>code = ''USD'', precision = 2, name = ''US Dollar'', type = FIAT, symbol = Some ''$''\<rparr>
       (SDec (Decimal False 100 (- 2))) =
     Inr \<lparr>currency = \<lparr>code = ''USD'', precision = 2, name = ''US Dollar'', type = FIAT,
                          symbol = Some ''$''\<rparr>,
           amount = Decimal False 100 (- 2)\<rparr> \<and>
   get_amount USD (SDec (Decimal False 5 (- 3))) =
     Inr \<lparr>currency = USD, amount = Decimal False 500000 (- 8)\<rparr> \<and>
   add \<lparr>currency = \<lparr>code = ''USD'', precision = 2, name = ''US Dollar'', type = FIAT,
                        symbol = Some ''$''\<rparr>,
         amount = Decimal False 100 (- 2)\<rparr>
       \<lparr>currency = USD, amount = Decimal False 500000 (- 8)\<rparr> =
     Inr \<lparr>currency = \<lparr>code = ''USD'', precision = 2, name = ''US Dollar'', type = FIAT,
                          symbol = Some ''$''\<rparr>,
           amount = Decimal False 100 (- 2)\<rparr> \<and>
   sub \<lparr>currency = \<lparr>code = ''USD'', precision = 2, name = ''US Dollar'', type = FIAT,
                        symbol = Some ''$''\<rparr>,
         amount = Decimal False 100 (- 2)\<rparr>
       \<lparr>currency = USD, amount = Decimal False 500000 (- 8)\<rparr> =
     Inr \<lparr>currency = \<lparr>code = ''USD'', precision = 2, name = ''US Dollar'', type = FIAT,
                          symbol = Some ''$''\<rparr>,
           amount = Decimal False 100 (- 2)\<rparr>"
proof -
  let ?c = "\<lparr>code = ''USD'', precision = 2, name = ''US Dollar'', type = FIAT, symbol = Some ''$''\<rparr>"
  have ne: "?c \<noteq> USD" by (simp add: USD_def)
  have ga: "get_amount ?c (SDec (Decimal False 100 (- 2))) =
            Inr \<lparr>currency = ?c, amount = Decimal False 100 (- 2)\<rparr>"
    by (simp add: get_amount_def CurrencyAmount_init_eq fits_def rescale_def Etiny_def Emin_def
        prec_def)
  have gb: "get_amount USD (SDec (Decimal False 5 (- 3))) =
            Inr \<lparr>currency = USD, amount = Decimal False 500000 (- 8)\<rparr>"
    by (simp add: get_amount_def CurrencyAmount_init_eq USD_def fits_def rescale_def Etiny_def
        Emin_def prec_def)
  have da: "dec_add (Decimal False 100 (- 2)) (Decimal False 500000 (- 8)) =
            Inr (Decimal False 100500000 (- 8))"
    by (simp add: dec_add_def dec_fix_def signed_coeff_def Let_def Etiny_def Emin_def Emax_def
        Etop_def prec_def)
  have ds: "dec_sub (Decimal False 100 (- 2)) (Decimal False 500000 (- 8)) =
            Inr (Decimal False 99500000 (- 8))"
    by (simp add: dec_sub_def copy_negate_def dec_add_def dec_fix_def signed_coeff_def Let_def
        Etiny_def Emin_def Emax_def Etop_def prec_def)
  have ia: "CurrencyAmount_init (Decimal False 100500000 (- 8)) ?c =
            Inr \<lparr>currency = ?c, amount = Decimal False 100 (- 2)\<rparr>"
    by (simp add: CurrencyAmount_init_eq fits_def rescale_def round_half_even_def Etiny_def
        Emin_def prec_def)
  have ib: "CurrencyAmount_init (Decimal False 99500000 (- 8)) ?c =
            Inr \<lparr>currency = ?c, amount = Decimal False 100 (- 2)\<rparr>"
    by (simp add: CurrencyAmount_init_eq fits_def rescale_def round_half_even_def Etiny_def
        Emin_def prec_def)
  have eq: "currency_eq ?c USD" by (simp add: currency_eq_def dict_def USD_def)
  have add: "add \<lparr>currency = ?c, amount = Decimal False 100 (- 2)\<rparr>
                 \<lparr>currency = USD, amount = Decimal False 500000 (- 8)\<rparr> =
             Inr \<lparr>currency = ?c, amount = Decimal False 100 (- 2)\<rparr>"
    by (simp add: add_def eq da ia)
  have sub: "sub \<lparr>currency = ?c, amount = Decimal False 100 (- 2)\<rparr>
                 \<lparr>currency = USD, amount = Decimal False 500000 (- 8)\<rparr> =
             Inr \<lparr>currency = ?c, amount = Decimal False 100 (- 2)\<rparr>"
    by (simp add: sub_def eq ds ib)
  from ne ga gb add sub show ?thesis by (intro conjI)
qed

section \<open>Quantization\<close>

text \<open>
  Claim C1. Whatever function of the source returns a \<open>CurrencyAmount\<close>, the stored amount
  is the value handed to the constructor, rescaled half-even to the exponent of
  \<^verbatim>\<open>currency.minimal_value\<close>: its exponent is \<open>-p\<close> for a currency of precision \<open>p\<close> (a
  precision beyond 1000026 is below the smallest exponent of the context and gives
  \<open>Etiny\<close>), so it has at most \<open>p\<close> fractional digits, and its coefficient has at most 28
  digits. The result is a fixed point of the constructor.
\<close>

theorem quantization_invariant:
  assumes "construct k = Inr r"
  shows "0 \<le> precision (currency r) \<and>
         (\<exists>v. unquantized k = Inr v \<and>
              amount r = rescale v (max (- precision (currency r)) Etiny)) \<and>
         expo (amount r) = max (- precision (currency r)) Etiny \<and>
         (precision (currency r) \<le> 1000026 \<longrightarrow> expo (amount r) = - precision (currency r)) \<and>
         coeff (amount r) < 10 ^ prec \<and>
         CurrencyAmount_init (amount r) (currency r) = Inr r"
proof -
  have "\<exists>v c. unquantized k = Inr v \<and> CurrencyAmount_init v c = Inr r"
  proof (cases k)
    case (FromFraction x c n)
    with assms obtain f v q y where "get_fraction c n = Inr f"
      "dec_mul (to_decimal x) (multiplier f) = Inr v" "minimal_value c = Inr q"
      "quantize v q = Inr y" "CurrencyAmount_init y c = Inr r"
      by (auto simp: from_fraction_def and_then_Inr)
    with FromFraction show ?thesis by auto
  qed (use assms in \<open>auto simp: get_amount_def currency_mul_def currency_rmul_def zero_def one_def
        fraction_get_amount_def add_def sub_def mul_def truediv_def floordiv_def and_then_Inr
        split: if_splits\<close>)
  then obtain v c where v: "unquantized k = Inr v" and i: "CurrencyAmount_init v c = Inr r"
    by blast
  note q = init_quantized [OF i]
  from q have e: "precision (currency r) \<le> 1000026 \<longrightarrow> expo (amount r) = - precision (currency r)"
    by (simp add: grid_exponent)
  from CurrencyAmount_init_idem [OF i] v q e show ?thesis by auto
qed

theorem quantization_invariant_witness:
  "construct (GetAmount USD (SDec (Decimal False 1123456789 (- 9)))) =
     Inr \<lparr>currency = USD, amount = Decimal False 112345679 (- 8)\<rparr> \<and>
   expo (Decimal False 112345679 (- 8)) = - precision USD \<and>
   Decimal False 112345679 (- 8) = rescale (Decimal False 1123456789 (- 9)) (- precision USD)"
proof -
  have c: "construct (GetAmount USD (SDec (Decimal False 1123456789 (- 9)))) =
     Inr \<lparr>currency = USD, amount = Decimal False 112345679 (- 8)\<rparr>"
    by (simp add: get_amount_def CurrencyAmount_init_eq USD_def fits_def rescale_def
        round_half_even_def Etiny_def Emin_def prec_def)
  from quantization_invariant [OF c] c show ?thesis
    by (simp add: USD_def Etiny_def Emin_def prec_def)
qed

text \<open>
  Claim C10. For every currency of non-negative precision (those of the table have 8 or
  18), every fraction name and every int or finite decimal \<open>a\<close>,
  \<^verbatim>\<open>CurrencyAmount.from_fraction(a, c, name)\<close> and \<^verbatim>\<open>c.get_fraction(name).get_amount(a)\<close>
  give the same result, be it an amount or an error: quantizing twice to the same
  exponent is quantizing once.
\<close>

theorem from_fraction_agrees:
  "0 \<le> precision c \<Longrightarrow>
     from_fraction a c fraction_name =
       and_then (get_fraction c fraction_name) (\<lambda>f. fraction_get_amount f a)"
proof -
  assume p: "0 \<le> precision c"
  show ?thesis
  proof (cases "get_fraction c fraction_name")
    case (Inl e)
    then show ?thesis by (simp add: from_fraction_def)
  next
    case (Inr f)
    then have c: "fcurrency f = c"
      by (auto simp: get_fraction_def split: option.splits)
    show ?thesis
    proof (cases "dec_mul (to_decimal a) (multiplier f)")
      case (Inl e)
      with Inr show ?thesis by (simp add: from_fraction_def fraction_get_amount_def)
    next
      case x: (Inr x)
      with Inr c requantize [OF p, of x] show ?thesis
        by (simp add: from_fraction_def fraction_get_amount_def get_amount_def
            quantize_amount_unfold)
    qed
  qed
qed

theorem from_fraction_agrees_witness:
  "0 \<le> precision ETH \<and>
   from_fraction (SInt 1000000000) ETH ''gwei'' =
     and_then (get_fraction ETH ''gwei'') (\<lambda>f. fraction_get_amount f (SInt 1000000000)) \<and>
   from_fraction (SInt 1000000000) ETH ''gwei'' =
     Inr \<lparr>currency = ETH, amount = Decimal False 1000000000000000000 (- 18)\<rparr>"
proof -
  have p: "0 \<le> precision ETH" by (simp add: ETH_def ethereum_like_currency_def)
  have m: "dec_mul (from_int 1000000000) (Decimal False (Suc 0) (- 9)) =
           Inr (Decimal False 1000000000 (- 9))"
    by (simp add: dec_mul_def dec_fix_def from_int_def Let_def Etiny_def Emin_def Emax_def Etop_def
        prec_def)
  have i: "CurrencyAmount_init (Decimal False 1000000000 (- 9)) ETH =
           Inr \<lparr>currency = ETH, amount = Decimal False 1000000000000000000 (- 18)\<rparr>"
    by (simp add: CurrencyAmount_init_eq ETH_def ethereum_like_currency_def fits_def rescale_def
        Etiny_def Emin_def prec_def)
  have "and_then (get_fraction ETH ''gwei'') (\<lambda>f. fraction_get_amount f (SInt 1000000000)) =
        Inr \<lparr>currency = ETH, amount = Decimal False 1000000000000000000 (- 18)\<rparr>"
    by (simp add: get_fraction_def FRACTIONS_def fraction_get_amount_def get_amount_def m i)
  with from_fraction_agrees [OF p, of "SInt 1000000000" "''gwei''"] p show ?thesis by simp
qed

section \<open>Addition of amounts of one currency\<close>




section \<open>Amounts from a decimal\<close>

text \<open>
  Claim C5, as amended. For a currency of precision \<open>p\<close> between 0 and 1000026 and an int
  or finite decimal \<open>x\<close>, \<^verbatim>\<open>get_amount(x)\<close> returns \<open>x\<close> rounded half-even to \<open>p\<close> places
  when that has at most 28 digits, that is when \<open>\<bar>x\<bar> < 10^(28 - p) - 10^(-p) / 2\<close>, and
  raises \<open>InvalidOperation\<close> otherwise.
\<close>

theorem get_amount_fits:
  assumes "0 \<le> precision c" "precision c \<le> 1000026"
  shows "get_amount c x =
     (if fits (to_decimal x) (- precision c)
      then Inr \<lparr>currency = c, amount = rescale (to_decimal x) (- precision c)\<rparr>
      else Inl InvalidOperation)"
  using assms by (simp add: get_amount_def CurrencyAmount_init_eq grid_exponent)

theorem get_amount_fits_witness:
  "0 \<le> precision USD \<and> precision USD \<le> 1000026 \<and>
   fits (to_decimal (SDec (Decimal False 1123456789 (- 9)))) (- precision USD) \<and>
   get_amount USD (SDec (Decimal False 1123456789 (- 9))) =
     Inr \<lparr>currency = USD, amount = Decimal False 112345679 (- 8)\<rparr>"
proof -
  have p: "0 \<le> precision USD" "precision USD \<le> 1000026" by (simp_all add: USD_def)
  from get_amount_fits [OF p, of "SDec (Decimal False 1123456789 (- 9))"] p show ?thesis
    by (simp add: USD_def fits_def rescale_def round_half_even_def prec_def)
qed

theorem get_amount_counterexample:
  "registered ETH \<and> get_amount ETH (SInt 10000000000) = Inl InvalidOperation"
proof -
  have "registered ETH" by (simp add: registered_iff registry_def)
  moreover have "get_amount ETH (SInt 10000000000) = Inl InvalidOperation"
    by (simp add: get_amount_def CurrencyAmount_init_eq ETH_def ethereum_like_currency_def fits_def
        from_int_def Etiny_def Emin_def prec_def)
  ultimately show ?thesis by simp
qed

section \<open>Division by zero\<close>

text \<open>
  Claim C6, as amended. Dividing or floor-dividing a finite amount by a zero scalar (the
  int 0 or a finite decimal of coefficient 0) always raises and never returns an amount:
  \<open>DivisionByZero\<close> when the amount is not zero, and \<open>InvalidOperation\<close> (the decimal
  condition \<^verbatim>\<open>DivisionUndefined\<close>, \<open>0 / 0\<close>) when the amount is zero. The amounts of the
  theorem are the finite ones by the type \<open>decimal\<close>; an amount that holds NaN is not
  covered, and dividing it by zero returns NaN.
\<close>

theorem division_by_zero:
  assumes "is_zero (to_decimal z)"
  shows "truediv a z = Inl (if is_zero (amount a) then InvalidOperation else DivisionByZero) \<and>
         floordiv a z = Inl (if is_zero (amount a) then InvalidOperation else DivisionByZero)"
  using assms
  by (simp add: truediv_def floordiv_def dec_truediv_def dec_floordiv_def is_zero_def Let_def)

theorem division_by_zero_witness:
  "is_zero (to_decimal (SInt 0)) \<and>
   get_amount USD (SInt 5) = Inr \<lparr>currency = USD, amount = Decimal False 500000000 (- 8)\<rparr> \<and>
   truediv \<lparr>currency = USD, amount = Decimal False 500000000 (- 8)\<rparr> (SInt 0) = Inl DivisionByZero \<and>
   floordiv \<lparr>currency = USD, amount = Decimal False 500000000 (- 8)\<rparr> (SInt 0) = Inl DivisionByZero"
proof -
  have z: "is_zero (to_decimal (SInt 0))" by (simp add: is_zero_def from_int_def)
  have g: "get_amount USD (SInt 5) = Inr \<lparr>currency = USD, amount = Decimal False 500000000 (- 8)\<rparr>"
    by (simp add: get_amount_def CurrencyAmount_init_eq USD_def fits_def rescale_def from_int_def
        Etiny_def Emin_def prec_def)
  from division_by_zero [OF z, of "\<lparr>currency = USD, amount = Decimal False 500000000 (- 8)\<rparr>"] z g
  show ?thesis by (simp add: is_zero_def)
qed

theorem division_by_zero_counterexample:
  "zero USD = Inr \<lparr>currency = USD, amount = Decimal False 0 (- 8)\<rparr> \<and>
   truediv \<lparr>currency = USD, amount = Decimal False 0 (- 8)\<rparr> (SInt 0) = Inl InvalidOperation \<and>
   floordiv \<lparr>currency = USD, amount = Decimal False 0 (- 8)\<rparr> (SInt 0) = Inl InvalidOperation \<and>
   truediv \<lparr>currency = USD, amount = Decimal False 0 (- 8)\<rparr> (SInt 0) \<noteq> Inl DivisionByZero"
proof -
  have "zero USD = Inr \<lparr>currency = USD, amount = Decimal False 0 (- 8)\<rparr>"
    by (simp add: zero_def currency_rmul_def CurrencyAmount_init_eq USD_def fits_def rescale_def
        from_int_def Etiny_def Emin_def prec_def)
  then show ?thesis
    by (simp add: truediv_def floordiv_def dec_truediv_def dec_floordiv_def from_int_def Let_def)
qed

section \<open>Fractions\<close>

text \<open>
  Claim C3, as amended. For a currency of precision \<open>p\<close> between 0 and 1000026 (every
  registered one) and a registered fraction name, whenever \<^verbatim>\<open>from_fraction(v, c, name)\<close>
  returns an amount \<open>a\<close>, \<^verbatim>\<open>a.as_fraction(name)\<close> returns a decimal \<open>r\<close>: the digits of the
  amount at the exponent shifted by that of the multiplier, so that \<open>r\<close> times the
  multiplier is the amount exactly; and \<open>r\<close> differs from \<open>v\<close> by less than one minimal
  value of the currency, expressed in fraction units.
\<close>

theorem fraction_roundtrip:
  assumes p: "0 \<le> precision c" "precision c \<le> 1000026"
    and n: "map_of FRACTIONS fraction_name = Some m"
    and a: "from_fraction v c fraction_name = Inr a"
  shows "\<exists>r. as_fraction a fraction_name = Inr r \<and>
             r = Decimal (dsign (amount a)) (coeff (amount a)) (expo (amount a) - expo m) \<and>
             dec_value r * dec_value m = dec_value (amount a) \<and>
             \<bar>dec_value r - dec_value (to_decimal v)\<bar> * dec_value m
               < 10 powr real_of_int (- precision c)"
proof -
  let ?p = "precision c"
  from FRACTIONS_unit [OF n] have m: "m = Decimal False 1 (expo m)"
    and em: "- 18 \<le> expo m" "expo m \<le> 0" by simp_all
  have gf: "get_fraction c fraction_name = Inr \<lparr>fcurrency = c, fname = fraction_name, multiplier = m\<rparr>"
    by (simp add: get_fraction_def n)
  from a obtain x where x: "dec_mul (to_decimal v) m = Inr x"
    and i: "CurrencyAmount_init x c = Inr a"
    by (auto simp: from_fraction_eq [OF p(1)] gf and_then_Inr)
  from i p have fx: "fits x (- ?p)" and am: "amount a = rescale x (- ?p)" and ca: "currency a = c"
    by (auto simp: CurrencyAmount_init_eq grid_exponent split: if_splits)
  from init_quantized [OF i] p have ea: "expo (amount a) = - ?p" and cf: "coeff (amount a) < 10 ^ prec"
    by (simp_all add: grid_exponent)
  define r where "r = Decimal (dsign (amount a)) (coeff (amount a)) (expo (amount a) - expo m)"
  have "dec_truediv (amount a) (Decimal False 1 (expo m)) = Inr r"
    unfolding r_def using cf p em
    by (intro dec_truediv_unit) (simp_all add: ea Etiny_def Emin_def Emax_def prec_def)
  then have as: "as_fraction a fraction_name = Inr r"
    using m by (simp add: as_fraction_def ca gf)
  have mv: "dec_value m = 10 powr real_of_int (expo m)"
    by (subst m) (simp add: dec_value_Decimal)
  have "10 powr real_of_int (expo (amount a) - expo m) * 10 powr real_of_int (expo m) =
        10 powr real_of_int (expo (amount a))"
    by (simp add: powr_add [symmetric])
  then have rm: "dec_value r * dec_value m = dec_value (amount a)"
    by (cases "amount a") (simp add: r_def mv dec_value_Decimal)
  let ?d = "Decimal (dsign (to_decimal v) \<noteq> dsign m) (coeff (to_decimal v) * coeff m)
              (expo (to_decimal v) + expo m)"
  from x have "dec_fix ?d = Inr x" by (simp add: dec_mul_def)
  from quantized_product_error [OF p this fx]
  have "\<bar>dec_value (amount a) - dec_value (to_decimal v) * dec_value m\<bar>
          < 10 powr real_of_int (- ?p)"
    by (simp only: am dec_value_mul)
  moreover have "0 < dec_value m" by (simp add: mv)
  then have "\<bar>dec_value r - dec_value (to_decimal v)\<bar> * dec_value m =
        \<bar>dec_value r * dec_value m - dec_value (to_decimal v) * dec_value m\<bar>"
    by (simp add: abs_mult flip: left_diff_distrib)
  ultimately have "\<bar>dec_value r - dec_value (to_decimal v)\<bar> * dec_value m
               < 10 powr real_of_int (- ?p)"
    by (simp only: rm)
  with as rm show ?thesis unfolding r_def by blast
qed

theorem fraction_roundtrip_witness:
  "0 \<le> precision ETH \<and> precision ETH \<le> 1000026 \<and>
   map_of FRACTIONS ''gwei'' = Some (Decimal False 1 (- 9)) \<and>
   from_fraction (SInt 1000000000) ETH ''gwei'' =
     Inr \<lparr>currency = ETH, amount = Decimal False 1000000000000000000 (- 18)\<rparr> \<and>
   as_fraction \<lparr>currency = ETH, amount = Decimal False 1000000000000000000 (- 18)\<rparr> ''gwei'' =
     Inr (Decimal False 1000000000000000000 (- 9)) \<and>
   dec_eq (Decimal False 1000000000000000000 (- 9)) (from_int 1000000000)"
proof -
  let ?a = "\<lparr>currency = ETH, amount = Decimal False 1000000000000000000 (- 18)\<rparr>"
  have p: "0 \<le> precision ETH" "precision ETH \<le> 1000026"
    by (simp_all add: ETH_def ethereum_like_currency_def)
  have n: "map_of FRACTIONS ''gwei'' = Some (Decimal False 1 (- 9))" by (simp add: FRACTIONS_def)
  have m: "dec_mul (from_int 1000000000) (Decimal False (Suc 0) (- 9)) =
           Inr (Decimal False 1000000000 (- 9))"
    by (simp add: dec_mul_def dec_fix_def from_int_def Let_def Etiny_def Emin_def Emax_def Etop_def
        prec_def)
  have i: "CurrencyAmount_init (Decimal False 1000000000 (- 9)) ETH = Inr ?a"
    by (simp add: CurrencyAmount_init_eq ETH_def ethereum_like_currency_def fits_def rescale_def
        Etiny_def Emin_def prec_def)
  have a: "from_fraction (SInt 1000000000) ETH ''gwei'' = Inr ?a"
    by (simp add: from_fraction_eq [OF p(1)] get_fraction_def FRACTIONS_def m i)
  from fraction_roundtrip [OF p n a]
  have r: "as_fraction ?a ''gwei'' = Inr (Decimal False 1000000000000000000 (- 9))" by auto
  have e: "dec_eq (Decimal False 1000000000000000000 (- 9)) (from_int 1000000000)"
    by (simp add: dec_eq_def from_int_def signed_coeff_def Let_def)
  from p n a r e show ?thesis by (intro conjI)
qed

theorem fraction_roundtrip_counterexample:
  "registered ETH \<and> map_of FRACTIONS ''base'' = Some (Decimal False 1 0) \<and>
   from_fraction (SInt 10000000000) ETH ''base'' = Inl InvalidOperation"
proof -
  have r: "registered ETH" by (simp add: registered_iff registry_def)
  have n: "map_of FRACTIONS ''base'' = Some (Decimal False 1 0)" by (simp add: FRACTIONS_def)
  have p: "0 \<le> precision ETH" by (simp add: ETH_def ethereum_like_currency_def)
  have m: "dec_mul (from_int 10000000000) (Decimal False (Suc 0) 0) =
           Inr (Decimal False 10000000000 0)"
    by (simp add: dec_mul_def dec_fix_def from_int_def Let_def Etiny_def Emin_def Emax_def Etop_def
        prec_def)
  have i: "CurrencyAmount_init (Decimal False 10000000000 0) ETH = Inl InvalidOperation"
    by (simp add: CurrencyAmount_init_eq ETH_def ethereum_like_currency_def fits_def
        Etiny_def Emin_def prec_def)
  have "from_fraction (SInt 10000000000) ETH ''base'' = Inl InvalidOperation"
    by (simp add: from_fraction_eq [OF p] get_fraction_def FRACTIONS_def m i)
  with r n show ?thesis by (intro conjI)
qed

end
